(* ===== verification/OHC_Prelude.thy ===== *)
theory OHC_Prelude
  imports Main "HOL-Library.Word"
begin

text \<open>
  Shared vocabulary of the development of \<^verbatim>\<open>src/ohc.c\<close>: the byte type of the
  AVR's \<^verbatim>\<open>uint8_t\<close>, the exclusive-or reduction of a byte list (the quantity the
  receive checksum tracks), and the facts about lists, rotations and words that the
  component theories share. \<open>ohc_consts\<close> collects the definitions of the source's
  macros; \<open>window_simps\<close> collects the list facts that describe one shift of the
  circular receive buffer; \<open>reg_bits\<close> collects which bit each I/O mask sets.
\<close>

unbundle bit_operations_syntax

named_theorems ohc_consts "definitions of the macros and constants of ohc.c"
named_theorems window_simps "list and rotation facts for one shift of the circular buffer"
named_theorems reg_bits "the bits set in the I/O register masks and bit numbers of ohc.c"

type_synonym byte = "8 word"

primrec xor_list :: "byte list \<Rightarrow> byte" where
  "xor_list [] = 0"
| "xor_list (x # xs) = x XOR xor_list xs"

subsection \<open>Exclusive-or reduction\<close>

lemma xor_list_append [simp]: "xor_list (xs @ ys) = xor_list xs XOR xor_list ys"
  by (induction xs) (simp_all add: xor.assoc)

lemma xor_list_rotate1 [simp]: "xor_list (rotate1 xs) = xor_list xs"
  by (cases xs) (simp_all add: xor.commute)

lemma xor_list_rotate [simp]: "xor_list (rotate n xs) = xor_list xs"
  by (induction n) simp_all

lemma xor_list_update [window_simps]:
  "i < length xs \<Longrightarrow> xor_list (xs[i := v]) = (xor_list xs XOR xs ! i) XOR v"
proof (induction xs arbitrary: i)
  case Nil
  then show ?case by simp
next
  case (Cons x xs)
  then show ?case
    by (cases i) (simp_all add: ac_simps)
qed

lemma xor_list_snoc_self: "xor_list (xs @ [xor_list xs]) = 0"
  by simp

lemma xor_list_replicate_zero [simp]: "xor_list (replicate n 0) = 0"
  by (induction n) simp_all

subsection \<open>Rotations of a circular buffer\<close>

lemma rotate_nth_hd [window_simps]:
  assumes "i < length xs"
  shows "hd (rotate i xs) = xs ! i"
proof -
  have "rotate i xs \<noteq> []" using assms by auto
  then show ?thesis using assms by (simp add: hd_conv_nth nth_rotate)
qed

lemma rotate_update_Suc:
  assumes "i < length xs"
  shows "rotate (Suc i) (xs[i := v]) = tl (rotate i xs) @ [v]"
proof -
  have r: "rotate i xs = drop i xs @ take i xs"
    using assms by (simp add: rotate_drop_take)
  have d: "drop i xs = xs ! i # drop (Suc i) xs"
    using assms by (simp add: Cons_nth_drop_Suc)
  show ?thesis
  proof (cases "Suc i = length xs")
    case True
    then have "rotate (Suc i) (xs[i := v]) = xs[i := v]"
      by (simp add: rotate_id)
    also have "\<dots> = take i xs @ [v]"
      using True assms by (simp add: upd_conv_take_nth_drop)
    finally show ?thesis
      using r d True by simp
  next
    case False
    with assms have lt: "Suc i < length xs" by simp
    have "rotate (Suc i) (xs[i := v]) = drop (Suc i) (xs[i := v]) @ take (Suc i) (xs[i := v])"
      using lt by (simp add: rotate_drop_take)
    also have "\<dots> = drop (Suc i) xs @ take i xs @ [v]"
      using assms by (simp add: take_update_swap upd_conv_take_nth_drop)
    finally show ?thesis
      using r d by simp
  qed
qed

lemma rotate1_rotate_update [window_simps]:
  "i < length xs \<Longrightarrow> rotate1 (rotate i (xs[i := v])) = tl (rotate i xs) @ [v]"
  using rotate_update_Suc by (metis rotate_Suc)

lemma length_tl_snoc [window_simps]: "xs \<noteq> [] \<Longrightarrow> length (tl xs @ [v]) = length xs"
  by simp

lemma take_drop_update_beyond [simp]:
  "i + n \<le> k \<Longrightarrow> take n (drop i (xs[k := v])) = take n (drop i xs)"
  by (simp add: drop_update_swap take_update_cancel)

subsection \<open>Bytes\<close>

lemma unat_byte_add:
  fixes i k :: byte
  assumes "unat i + unat k < 256"
  shows "unat (i + k) = unat i + unat k"
  using assms by (simp add: unat_add_lem [symmetric])

lemma unat_byte_Suc:
  fixes h :: byte
  assumes "unat h < 255"
  shows "unat (h + 1) = Suc (unat h)"
  using assms by (simp add: unat_word_ariths)


subsection \<open>Single-bit masks\<close>

text \<open>\<^verbatim>\<open>(1<<k)\<close> sets exactly bit \<open>k\<close> of a word wide enough to hold it.\<close>

lemma bit_push_one: "bit (push_bit k 1 :: 'a::len word) n \<longleftrightarrow> n = k \<and> k < LENGTH('a)"
  by (simp only: push_bit_of_1 bit_exp_iff possible_bit_word) auto

end
