(* ===== verification/Rx_Window.thy ===== *)
theory Rx_Window
  imports OHC_Prelude
begin

text \<open>
  The sliding-window frame detector of the receive interrupt
  (\<^verbatim>\<open>ISR(USART_RX_vect)\<close>, \<^verbatim>\<open>src/ohc.c\<close> lines 151--173) and its globals
  \<^verbatim>\<open>packet_buffer\<close>, \<^verbatim>\<open>packet_head\<close>, \<^verbatim>\<open>packet_checksum\<close> (lines 19--21).
  \<open>rx_shift\<close> is the checksum and buffer update of one received byte,
  \<open>rx_synced\<close> the synchronisation test, \<open>copy_head\<close>/\<open>copy_wrap\<close> the two
  copy loops that linearise the buffer into a frame, and \<open>rx_frame\<close> their
  composition. The abstraction \<open>win_list\<close> reads the circular buffer oldest byte
  first; under the invariant \<open>rx_wf\<close> the detector refines the abstract window
  "the last 132 bytes of the stream".
\<close>

definition PACKET_HEADER :: byte where
  "PACKET_HEADER = 0x55"

definition PACKET_SIZE :: nat where
  "PACKET_SIZE = 128 + 4"

declare PACKET_HEADER_def [ohc_consts] PACKET_SIZE_def [ohc_consts]

record rx_window =
  packet_buffer :: "byte list"
  packet_head :: byte
  packet_checksum :: byte

text \<open>The globals are zero-initialised (C static storage).\<close>

definition rx_window_init :: rx_window where
  "rx_window_init =
     \<lparr>packet_buffer = replicate PACKET_SIZE 0, packet_head = 0, packet_checksum = 0\<rparr>"

text \<open>Lines 154--159: XOR the evicted byte out, store the new one, XOR it in, advance
  the 8-bit head and wrap it at \<^verbatim>\<open>PACKET_SIZE\<close>.\<close>

definition rx_shift :: "rx_window \<Rightarrow> byte \<Rightarrow> rx_window" where
  "rx_shift w rx =
     (let h = unat (packet_head w);
          c1 = packet_checksum w XOR packet_buffer w ! h;
          buf = (packet_buffer w)[h := rx];
          c2 = c1 XOR rx;
          h1 = packet_head w + 1;
          h2 = (if PACKET_SIZE \<le> unat h1 then 0 else h1)
      in w\<lparr>packet_buffer := buf, packet_head := h2, packet_checksum := c2\<rparr>)"

text \<open>Lines 161--162: the byte at the new head (the oldest one) is the header and the
  running checksum is zero.\<close>

definition rx_synced :: "rx_window \<Rightarrow> bool" where
  "rx_synced w \<longleftrightarrow>
     packet_buffer w ! unat (packet_head w) = PACKET_HEADER \<and> packet_checksum w = 0"

text \<open>Lines 165--166 and 167--168: the two copy loops over the 16-bit index \<open>i\<close>
  (its values stay below 133, so it is a \<open>nat\<close> here).\<close>

function copy_head :: "byte list \<Rightarrow> nat \<Rightarrow> nat \<Rightarrow> nat \<Rightarrow> byte list \<Rightarrow> byte list" where
  "copy_head buf head num i np =
     (if i < num then copy_head buf head num (Suc i) (np[i := buf ! (i + head)]) else np)"
  by pat_completeness auto
termination
  by (relation "measure (\<lambda>(buf, head, num, i, np). num - i)") auto

function copy_wrap :: "byte list \<Rightarrow> nat \<Rightarrow> nat \<Rightarrow> byte list \<Rightarrow> byte list" where
  "copy_wrap buf num i np =
     (if i < PACKET_SIZE then copy_wrap buf num (Suc i) (np[i := buf ! (i - num)]) else np)"
  by pat_completeness auto
termination
  by (relation "measure (\<lambda>(buf, num, i, np). PACKET_SIZE - i)") auto

declare copy_head.simps [simp del] copy_wrap.simps [simp del]

text \<open>Lines 163--168: \<open>num = PACKET_SIZE - packet_head\<close>, then both loops write
  into the previous contents \<open>np\<close> of \<^verbatim>\<open>new_packet\<close>.\<close>

definition rx_frame :: "rx_window \<Rightarrow> byte list \<Rightarrow> byte list" where
  "rx_frame w np =
     (let head = unat (packet_head w);
          num = PACKET_SIZE - head
      in copy_wrap (packet_buffer w) num num (copy_head (packet_buffer w) head num 0 np))"

subsection \<open>Invariant and abstraction\<close>

definition rx_wf :: "rx_window \<Rightarrow> bool" where
  "rx_wf w \<longleftrightarrow>
     length (packet_buffer w) = PACKET_SIZE \<and> unat (packet_head w) < PACKET_SIZE \<and>
     packet_checksum w = xor_list (packet_buffer w)"

definition win_list :: "rx_window \<Rightarrow> byte list" where
  "win_list w = rotate (unat (packet_head w)) (packet_buffer w)"

text \<open>The windows the interrupt can produce from power-on, one received byte at a
  time.\<close>

inductive rx_reachable :: "rx_window \<Rightarrow> bool" where
  init: "rx_reachable rx_window_init"
| shift: "rx_reachable w \<Longrightarrow> rx_reachable (rx_shift w b)"

lemma rx_wf_init: "rx_wf rx_window_init"
  by (simp add: rx_wf_def rx_window_init_def ohc_consts)

lemma rx_head_step:
  fixes h :: byte
  assumes "unat h < PACKET_SIZE"
  shows "unat (if PACKET_SIZE \<le> unat (h + 1) then 0 else h + 1) = Suc (unat h) mod PACKET_SIZE"
proof -
  have "unat (h + 1) = Suc (unat h)"
    using assms by (intro unat_byte_Suc) (simp add: ohc_consts)
  then show ?thesis
    using assms by (auto simp: ohc_consts mod_if)
qed

lemma rx_shift_fields:
  assumes "rx_wf w"
  shows "packet_buffer (rx_shift w b) = (packet_buffer w)[unat (packet_head w) := b]"
    and "unat (packet_head (rx_shift w b)) = Suc (unat (packet_head w)) mod PACKET_SIZE"
    and "packet_checksum (rx_shift w b) =
           (packet_checksum w XOR packet_buffer w ! unat (packet_head w)) XOR b"
  using assms rx_head_step [of "packet_head w"]
  by (simp_all add: rx_shift_def rx_wf_def Let_def)

lemma rx_shift_wf: "rx_wf w \<Longrightarrow> rx_wf (rx_shift w b)"
  by (simp add: rx_wf_def [of "rx_shift w b"] rx_shift_fields) (simp add: rx_wf_def window_simps ohc_consts)

lemma length_win_list: "rx_wf w \<Longrightarrow> length (win_list w) = PACKET_SIZE"
  by (simp add: win_list_def rx_wf_def)

lemma xor_win_list: "xor_list (win_list w) = xor_list (packet_buffer w)"
  by (simp add: win_list_def)

lemma win_list_rx_shift:
  assumes "rx_wf w"
  shows "win_list (rx_shift w b) = tl (win_list w) @ [b]"
proof -
  let ?h = "unat (packet_head w)" and ?buf = "packet_buffer w"
  have len: "length (?buf[?h := b]) = PACKET_SIZE" and h: "?h < length ?buf"
    using assms by (simp_all add: rx_wf_def)
  have "win_list (rx_shift w b) = rotate (Suc ?h mod PACKET_SIZE) (?buf[?h := b])"
    using assms by (simp add: win_list_def rx_shift_fields)
  also have "\<dots> = rotate (Suc ?h) (?buf[?h := b])"
    using len by (metis rotate_conv_mod)
  also have "\<dots> = tl (win_list w) @ [b]"
    using h by (simp add: win_list_def window_simps)
  finally show ?thesis .
qed

lemma rx_synced_win_list:
  assumes "rx_wf w"
  shows "rx_synced w \<longleftrightarrow> hd (win_list w) = PACKET_HEADER \<and> xor_list (win_list w) = 0"
  using assms by (simp add: rx_synced_def rx_wf_def win_list_def window_simps xor_win_list)

subsection \<open>The copy loops compute the rotation\<close>

lemma copy_head_eq:
  "i \<le> num \<Longrightarrow> num \<le> length np \<Longrightarrow>
   copy_head buf head num i np = take i np @ map (\<lambda>j. buf ! (j + head)) [i..<num] @ drop num np"
proof (induction buf head num i np rule: copy_head.induct)
  case (1 buf head num i np)
  show ?case
  proof (cases "i < num")
    case True
    with "1.prems" have "copy_head buf head num (Suc i) (np[i := buf ! (i + head)]) =
      take (Suc i) (np[i := buf ! (i + head)]) @ map (\<lambda>j. buf ! (j + head)) [Suc i..<num] @
      drop num (np[i := buf ! (i + head)])"
      by (intro "1.IH") simp_all
    with True "1.prems" show ?thesis
      by (simp add: copy_head.simps [of buf head num i np] take_Suc_conv_app_nth upt_conv_Cons)
  next
    case False
    then have "copy_head buf head num i np = np"
      by (subst copy_head.simps) simp
    with False "1.prems" show ?thesis by simp
  qed
qed

lemma copy_wrap_eq:
  "i \<le> PACKET_SIZE \<Longrightarrow> PACKET_SIZE \<le> length np \<Longrightarrow>
   copy_wrap buf num i np =
     take i np @ map (\<lambda>j. buf ! (j - num)) [i..<PACKET_SIZE] @ drop PACKET_SIZE np"
proof (induction buf num i np rule: copy_wrap.induct)
  case (1 buf num i np)
  show ?case
  proof (cases "i < PACKET_SIZE")
    case True
    with "1.prems" have "copy_wrap buf num (Suc i) (np[i := buf ! (i - num)]) =
      take (Suc i) (np[i := buf ! (i - num)]) @ map (\<lambda>j. buf ! (j - num)) [Suc i..<PACKET_SIZE] @
      drop PACKET_SIZE (np[i := buf ! (i - num)])"
      by (intro "1.IH") simp_all
    with True "1.prems" show ?thesis
      by (simp add: copy_wrap.simps [of buf num i np] take_Suc_conv_app_nth upt_conv_Cons)
  next
    case False
    then have "copy_wrap buf num i np = np"
      by (subst copy_wrap.simps) simp
    with False "1.prems" show ?thesis by simp
  qed
qed

lemma map_upt_offset_drop:
  "h \<le> length buf \<Longrightarrow> map (\<lambda>j. buf ! (j + h)) [0..<length buf - h] = drop h buf"
  by (rule nth_equalityI) (simp_all add: add.commute)

lemma map_upt_shift_take:
  "h \<le> length buf \<Longrightarrow> map (\<lambda>j. buf ! (j - (length buf - h))) [length buf - h..<length buf] = take h buf"
  by (rule nth_equalityI) simp_all

text \<open>The two copy loops of lines 163--168 compute the oldest-first reading of the
  circular buffer, whatever \<^verbatim>\<open>new_packet\<close> held before.\<close>

lemma rx_frame_win_list:
  assumes wf: "rx_wf w" and np: "length np = PACKET_SIZE"
  shows "rx_frame w np = win_list w"
proof -
  let ?h = "unat (packet_head w)" and ?buf = "packet_buffer w"
  let ?num = "PACKET_SIZE - ?h"
  have len: "length ?buf = PACKET_SIZE" and h: "?h < PACKET_SIZE"
    using wf by (simp_all add: rx_wf_def)
  have c1: "copy_head ?buf ?h ?num 0 np = drop ?h ?buf @ drop ?num np"
    using copy_head_eq [of 0 ?num np ?buf ?h] np len h map_upt_offset_drop [of ?h ?buf] by simp
  have "rx_frame w np = take ?num (drop ?h ?buf @ drop ?num np) @
          map (\<lambda>j. ?buf ! (j - ?num)) [?num..<PACKET_SIZE] @
          drop PACKET_SIZE (drop ?h ?buf @ drop ?num np)"
    using copy_wrap_eq [of ?num "drop ?h ?buf @ drop ?num np" ?buf ?num] c1 np len
    by (simp add: rx_frame_def Let_def)
  also have "\<dots> = drop ?h ?buf @ take ?h ?buf"
    using len h np map_upt_shift_take [of ?h ?buf] by simp
  also have "\<dots> = win_list w"
    using len h by (simp add: win_list_def rotate_drop_take)
  finally show ?thesis .
qed

subsection \<open>Properties of the detector\<close>

text \<open>C1: the checksum invariant. In every window reachable from power-on, whatever
  bytes were received, the incrementally maintained \<^verbatim>\<open>packet_checksum\<close> equals the
  exclusive-or of the 132 bytes of \<^verbatim>\<open>packet_buffer\<close>, and the head indexes the
  buffer.\<close>

theorem checksum_invariant:
  assumes "rx_reachable w"
  shows "packet_checksum w = xor_list (packet_buffer w) \<and>
         unat (packet_head w) < PACKET_SIZE \<and> length (packet_buffer w) = PACKET_SIZE"
proof -
  from assms have "rx_wf w"
  proof (induction rule: rx_reachable.induct)
    case init
    show ?case by (rule rx_wf_init)
  next
    case (shift w b)
    from shift.IH show ?case by (rule rx_shift_wf)
  qed
  then show ?thesis by (simp add: rx_wf_def)
qed

theorem checksum_invariant_witness:
  "rx_reachable (rx_shift (rx_shift rx_window_init 0x55) 7) \<and>
   packet_checksum (rx_shift (rx_shift rx_window_init 0x55) 7) =
     xor_list (packet_buffer (rx_shift (rx_shift rx_window_init 0x55) 7))"
proof -
  have r: "rx_reachable (rx_shift (rx_shift rx_window_init 0x55) 7)"
    by (intro rx_reachable.shift rx_reachable.init)
  show ?thesis using checksum_invariant [OF r] r by simp
qed

text \<open>C3: the two copy loops of lines 163--168 are equivalent to the reference
  rotation of the circular buffer by \<^verbatim>\<open>packet_head\<close>: the frame starts with the
  oldest byte, whatever \<^verbatim>\<open>new_packet\<close> held before.\<close>

theorem copy_loops_rotate:
  assumes "rx_wf w" and "length np = PACKET_SIZE"
  shows "rx_frame w np = rotate (unat (packet_head w)) (packet_buffer w)"
  using rx_frame_win_list [OF assms] by (simp add: win_list_def)

theorem copy_loops_rotate_witness:
  "rx_wf (rx_shift rx_window_init 0x55) \<and> length (replicate PACKET_SIZE (9::byte)) = PACKET_SIZE \<and>
   rx_frame (rx_shift rx_window_init 0x55) (replicate PACKET_SIZE 9) =
     replicate 131 0 @ [0x55]"
proof -
  have wf: "rx_wf (rx_shift rx_window_init 0x55)" by (rule rx_shift_wf [OF rx_wf_init])
  have l: "length (replicate PACKET_SIZE (9::byte)) = PACKET_SIZE" by simp
  have "rx_frame (rx_shift rx_window_init 0x55) (replicate PACKET_SIZE 9) =
          rotate (unat (packet_head (rx_shift rx_window_init 0x55)))
                 (packet_buffer (rx_shift rx_window_init 0x55))"
    by (rule copy_loops_rotate [OF wf l])
  also have "\<dots> = replicate 131 0 @ [0x55]"
    by code_simp
  finally show ?thesis using wf by simp
qed

end
