(* ===== verification/Frame_Store.thy ===== *)
theory Frame_Store
  imports Rx_Window
begin

text \<open>
  The single-slot frame store shared by the receive interrupt and the main loop:
  \<^verbatim>\<open>new_packet\<close>, \<^verbatim>\<open>packet_type\<close> and \<^verbatim>\<open>has_new_packet\<close>
  (\<^verbatim>\<open>src/ohc.c\<close> lines 22--24). \<open>store_publish\<close> is the producer side of the
  interrupt (lines 169--170), \<open>store_take\<close> the consumer side of the main loop
  (lines 75--77, taken as one step here; \<open>Dispatcher\<close> splits it). The whole
  interrupt handler is \<open>usart_rx_isr\<close>: the detector of \<open>Rx_Window\<close> followed,
  on synchronisation, by the copy loops and the publication. \<open>rx_feed\<close> runs it
  over a byte stream and \<open>rx_published\<close> lists the frames it publishes.
\<close>

record frame_store =
  new_packet :: "byte list"
  packet_type :: byte
  has_new_packet :: bool

definition frame_store_init :: frame_store where
  "frame_store_init =
     \<lparr>new_packet = replicate PACKET_SIZE 0, packet_type = 0, has_new_packet = False\<rparr>"

text \<open>Lines 169--170: raise the flag, then read the type from byte 1 of the frame.\<close>

definition store_publish :: "byte list \<Rightarrow> frame_store \<Rightarrow> frame_store" where
  "store_publish f st = st\<lparr>new_packet := f, has_new_packet := True, packet_type := f ! 1\<rparr>"

text \<open>Lines 75--77: if the flag is up, clear it and hand the type to the switch.\<close>

definition store_take :: "frame_store \<Rightarrow> (byte \<times> frame_store) option" where
  "store_take st =
     (if has_new_packet st then Some (packet_type st, st\<lparr>has_new_packet := False\<rparr>) else None)"

type_synonym rx_state = "rx_window \<times> frame_store"

text \<open>Lines 151--173: the whole receive interrupt for the byte \<open>rx\<close> read from
  \<^verbatim>\<open>UDR0\<close>.\<close>

definition usart_rx_isr :: "byte \<Rightarrow> rx_state \<Rightarrow> rx_state" where
  "usart_rx_isr rx s =
     (let w = rx_shift (fst s) rx
      in if rx_synced w then (w, store_publish (rx_frame w (new_packet (snd s))) (snd s))
         else (w, snd s))"

fun rx_feed :: "byte list \<Rightarrow> rx_state \<Rightarrow> rx_state" where
  "rx_feed [] s = s"
| "rx_feed (b # bs) s = rx_feed bs (usart_rx_isr b s)"

fun rx_published :: "byte list \<Rightarrow> rx_state \<Rightarrow> byte list list" where
  "rx_published [] s = []"
| "rx_published (b # bs) s =
     (let s' = usart_rx_isr b s
      in (if rx_synced (fst s') then [new_packet (snd s')] else []) @ rx_published bs s')"

definition rx_state_init :: rx_state where
  "rx_state_init = (rx_window_init, frame_store_init)"

definition rx_state_wf :: "rx_state \<Rightarrow> bool" where
  "rx_state_wf s \<longleftrightarrow> rx_wf (fst s) \<and> length (new_packet (snd s)) = PACKET_SIZE"

text \<open>A frame as the spec lays it out (section 6): 132 bytes, the header first, and
  an exclusive-or of zero over the whole frame.\<close>

definition valid_frame :: "byte list \<Rightarrow> bool" where
  "valid_frame f \<longleftrightarrow> length f = PACKET_SIZE \<and> hd f = PACKET_HEADER \<and> xor_list f = 0"

text \<open>The type of the store as the main loop relies on it: \<^verbatim>\<open>packet_type\<close> is byte 1
  of \<^verbatim>\<open>new_packet\<close>, and a raised flag announces a valid frame.\<close>

definition store_typed :: "frame_store \<Rightarrow> bool" where
  "store_typed st \<longleftrightarrow>
     packet_type st = new_packet st ! 1 \<and> (has_new_packet st \<longrightarrow> valid_frame (new_packet st))"

text \<open>The sender's side: header, type, 129 payload bytes and a closing byte that makes
  the exclusive-or of the frame zero.\<close>

definition mk_frame :: "byte \<Rightarrow> byte list \<Rightarrow> byte list" where
  "mk_frame t p = PACKET_HEADER # t # p @ [xor_list (PACKET_HEADER # t # p)]"

text \<open>The abstract receiver of the spec (section 4.1): the window is the list of the
  last 132 bytes, oldest first; a byte shifts it, and a window that starts with the
  header and XORs to zero is published.\<close>

definition frame_synced :: "byte list \<Rightarrow> bool" where
  "frame_synced ws \<longleftrightarrow> hd ws = PACKET_HEADER \<and> xor_list ws = 0"

definition abs_rx_step :: "byte \<Rightarrow> byte list \<times> frame_store \<Rightarrow> byte list \<times> frame_store" where
  "abs_rx_step b s =
     (let ws = tl (fst s) @ [b] in (ws, if frame_synced ws then store_publish ws (snd s) else snd s))"

fun abs_feed :: "byte list \<Rightarrow> byte list \<times> frame_store \<Rightarrow> byte list \<times> frame_store" where
  "abs_feed [] s = s"
| "abs_feed (b # bs) s = abs_feed bs (abs_rx_step b s)"

definition rx_abs :: "rx_state \<Rightarrow> byte list \<times> frame_store" where
  "rx_abs s = (win_list (fst s), snd s)"

subsection \<open>The interrupt keeps the invariant and refines the abstract receiver\<close>

lemma rx_state_wf_init: "rx_state_wf rx_state_init"
  by (simp add: rx_state_wf_def rx_state_init_def frame_store_init_def rx_wf_init)

lemma fst_usart_rx_isr [simp]: "fst (usart_rx_isr b s) = rx_shift (fst s) b"
  by (simp add: usart_rx_isr_def Let_def)

lemma snd_usart_rx_isr:
  assumes "rx_state_wf s"
  shows "snd (usart_rx_isr b s) =
           (if rx_synced (rx_shift (fst s) b)
            then store_publish (win_list (rx_shift (fst s) b)) (snd s) else snd s)"
  using assms rx_frame_win_list [OF rx_shift_wf]
  by (simp add: usart_rx_isr_def Let_def rx_state_wf_def)

lemma usart_rx_isr_wf: "rx_state_wf s \<Longrightarrow> rx_state_wf (usart_rx_isr b s)"
  using snd_usart_rx_isr [of s b] length_win_list [OF rx_shift_wf, of "fst s" b]
  by (simp add: rx_state_wf_def rx_shift_wf store_publish_def)

lemma rx_synced_shift_iff:
  "rx_wf w \<Longrightarrow> rx_synced (rx_shift w b) \<longleftrightarrow> frame_synced (tl (win_list w) @ [b])"
  using rx_synced_win_list [OF rx_shift_wf] win_list_rx_shift by (simp add: frame_synced_def)

lemma usart_rx_isr_refines:
  assumes "rx_state_wf s"
  shows "rx_abs (usart_rx_isr b s) = abs_rx_step b (rx_abs s)"
proof -
  have wf: "rx_wf (fst s)" using assms by (simp add: rx_state_wf_def)
  show ?thesis
    using snd_usart_rx_isr [OF assms] win_list_rx_shift [OF wf] rx_synced_shift_iff [OF wf]
    by (simp add: rx_abs_def abs_rx_step_def Let_def)
qed

lemma rx_published_single:
  assumes "rx_state_wf s"
  shows "rx_published [b] s =
           (let ws = tl (win_list (fst s)) @ [b] in if frame_synced ws then [ws] else [])"
proof -
  have wf: "rx_wf (fst s)" using assms by (simp add: rx_state_wf_def)
  show ?thesis
    using snd_usart_rx_isr [OF assms] win_list_rx_shift [OF wf] rx_synced_shift_iff [OF wf]
    by (simp add: store_publish_def Let_def)
qed

lemma rx_published_append:
  "rx_published (xs @ ys) s = rx_published xs s @ rx_published ys (rx_feed xs s)"
  by (induction xs arbitrary: s) (simp_all add: Let_def)

lemma rx_feed_append [simp]: "rx_feed (xs @ ys) s = rx_feed ys (rx_feed xs s)"
  by (induction xs arbitrary: s) simp_all

lemma rx_feed_wf: "rx_state_wf s \<Longrightarrow> rx_state_wf (rx_feed bs s)"
  by (induction bs arbitrary: s) (simp_all add: usart_rx_isr_wf)

lemma rx_feed_refines:
  "rx_state_wf s \<Longrightarrow> rx_abs (rx_feed bs s) = abs_feed bs (rx_abs s)"
  by (induction bs arbitrary: s) (simp_all add: usart_rx_isr_refines usart_rx_isr_wf)

subsection \<open>The abstract receiver\<close>

lemma abs_feed_append [simp]: "abs_feed (xs @ ys) s = abs_feed ys (abs_feed xs s)"
  by (induction xs arbitrary: s) simp_all

lemma fst_abs_feed:
  "fst s \<noteq> [] \<Longrightarrow> fst (abs_feed bs s) = drop (length bs) (fst s @ bs)"
proof (induction bs arbitrary: s)
  case Nil
  then show ?case by simp
next
  case (Cons b bs)
  have "fst (abs_rx_step b s) \<noteq> []" by (simp add: abs_rx_step_def Let_def)
  then have "fst (abs_feed bs (abs_rx_step b s)) = drop (length bs) (fst (abs_rx_step b s) @ bs)"
    by (rule Cons.IH)
  with Cons.prems show ?case
    by (cases "fst s") (simp_all add: abs_rx_step_def Let_def)
qed

lemma abs_feed_last:
  "abs_feed (bs @ [b]) s =
     (let ws = tl (fst (abs_feed bs s)) @ [b]
      in (ws, if frame_synced ws then store_publish ws (snd (abs_feed bs s)) else snd (abs_feed bs s)))"
  by (simp add: abs_rx_step_def)

text \<open>Feeding a whole valid frame, from any window of the right size, leaves exactly
  that frame in the window, and the window is then synchronised.\<close>

lemma abs_feed_frame:
  assumes "length (fst s) = PACKET_SIZE" and "valid_frame f"
  shows "abs_feed f s = (f, store_publish f (snd (abs_feed (butlast f) s)))"
proof -
  have ne: "f \<noteq> []" and len: "length f = PACKET_SIZE"
    using assms(2) by (auto simp: valid_frame_def ohc_consts)
  have "fst s \<noteq> []" using assms(1) by (auto simp: ohc_consts)
  then have "fst (abs_feed (butlast f) s) = drop (length (butlast f)) (fst s @ butlast f)"
    by (rule fst_abs_feed)
  then have ws: "tl (fst (abs_feed (butlast f) s)) @ [last f] = f"
    using assms(1) len ne by (simp add: ohc_consts tl_drop)
  have sync: "frame_synced f"
    using assms(2) by (simp add: valid_frame_def frame_synced_def)
  have "abs_feed f s = abs_feed (butlast f @ [last f]) s"
    using ne by simp
  also have "\<dots> = (f, store_publish f (snd (abs_feed (butlast f) s)))"
    using abs_feed_last [of "butlast f" "last f" s] ws sync by (simp add: Let_def)
  finally show ?thesis .
qed

subsection \<open>Round trip, latest wins, start-up\<close>

lemma snd_rx_abs [simp]: "snd (rx_abs s) = snd s"
  by (simp add: rx_abs_def)

lemma length_fst_rx_abs: "rx_state_wf s \<Longrightarrow> length (fst (rx_abs s)) = PACKET_SIZE"
  by (simp add: rx_abs_def rx_state_wf_def length_win_list)

lemma rx_feed_frame:
  assumes "rx_state_wf s" and "valid_frame f"
  shows "snd (rx_feed f s) = store_publish f (snd (rx_feed (butlast f) s))"
proof -
  have "rx_abs (rx_feed f s) = abs_feed f (rx_abs s)"
    using assms(1) by (rule rx_feed_refines)
  also have "\<dots> = (f, store_publish f (snd (abs_feed (butlast f) (rx_abs s))))"
    using length_fst_rx_abs [OF assms(1)] assms(2) by (rule abs_feed_frame)
  finally show ?thesis
    using rx_feed_refines [OF assms(1), of "butlast f"] by (metis snd_rx_abs snd_conv)
qed

lemma mk_frame_valid: "length p = 129 \<Longrightarrow> valid_frame (mk_frame t p)"
  using xor_list_snoc_self [of "PACKET_HEADER # t # p"]
  by (simp add: valid_frame_def mk_frame_def ohc_consts del: xor_list.simps)

lemma mk_frame_type [simp]: "mk_frame t p ! Suc 0 = t"
  by (simp add: mk_frame_def)

lemma win_list_init: "win_list rx_window_init = replicate PACKET_SIZE 0"
  by (simp add: win_list_def rx_window_init_def)

lemma win_list_feed_init:
  "win_list (fst (rx_feed bs rx_state_init)) = drop (length bs) (replicate PACKET_SIZE 0 @ bs)"
proof -
  have "fst (rx_abs (rx_feed bs rx_state_init)) = fst (abs_feed bs (rx_abs rx_state_init))"
    using rx_feed_refines [OF rx_state_wf_init] by simp
  also have "\<dots> = drop (length bs) (replicate PACKET_SIZE 0 @ bs)"
    by (simp add: fst_abs_feed rx_abs_def rx_state_init_def win_list_init ohc_consts)
  finally show ?thesis by (simp add: rx_abs_def)
qed

lemma rx_published_init_short:
  "length bs < PACKET_SIZE \<Longrightarrow> rx_published bs rx_state_init = []"
proof (induction bs rule: rev_induct)
  case Nil
  then show ?case by simp
next
  case (snoc b bs)
  let ?w = "fst (rx_feed bs rx_state_init)"
  have wf: "rx_state_wf (rx_feed bs rx_state_init)"
    by (rule rx_feed_wf [OF rx_state_wf_init])
  have "hd (tl (win_list ?w) @ [b]) = 0"
    using snoc.prems by (simp add: win_list_feed_init tl_drop hd_append ohc_consts)
  then have "\<not> frame_synced (tl (win_list ?w) @ [b])"
    by (simp add: frame_synced_def ohc_consts)
  then have "rx_published [b] (rx_feed bs rx_state_init) = []"
    using rx_published_single [OF wf, of b] by (simp add: Let_def del: rx_published.simps)
  with snoc show ?case
    by (simp add: rx_published_append del: rx_published.simps)
qed

lemma win_list_rx_feed_frame:
  assumes "rx_state_wf s" and "length f = PACKET_SIZE"
  shows "win_list (fst (rx_feed f s)) = f"
proof -
  have "win_list (fst (rx_feed f s)) = fst (abs_feed f (rx_abs s))"
    using rx_feed_refines [OF assms(1), of f] unfolding rx_abs_def by (metis fst_conv)
  also have "\<dots> = drop (length f) (fst (rx_abs s) @ f)"
    using length_fst_rx_abs [OF assms(1)] by (intro fst_abs_feed) (auto simp: ohc_consts)
  also have "\<dots> = f"
    using length_fst_rx_abs [OF assms(1)] assms(2) by simp
  finally show ?thesis .
qed

lemma valid_frame_synced: "valid_frame f \<Longrightarrow> frame_synced f"
  by (simp add: valid_frame_def frame_synced_def)

text \<open>The byte that completes a 132-byte sequence publishes it exactly when it is
  synchronised.\<close>

lemma rx_published_last_window:
  assumes "rx_state_wf s" and "length f = PACKET_SIZE"
  shows "rx_published [last f] (rx_feed (butlast f) s) = (if frame_synced f then [f] else [])"
proof -
  have ne: "f \<noteq> []" using assms(2) by (auto simp: ohc_consts)
  let ?s = "rx_feed (butlast f) s"
  have wf: "rx_state_wf ?s" using assms(1) by (rule rx_feed_wf)
  have "win_list (fst (usart_rx_isr (last f) ?s)) = win_list (fst (rx_feed f s))"
    using ne by (metis append_butlast_last_id rx_feed.simps rx_feed_append)
  then have "tl (win_list (fst ?s)) @ [last f] = f"
    using win_list_rx_shift wf assms win_list_rx_feed_frame
    by (simp add: rx_state_wf_def)
  then show ?thesis
    using rx_published_single [OF wf, of "last f"] by (simp add: Let_def del: rx_published.simps)
qed

lemma rx_published_butlast_last:
  "f \<noteq> [] \<Longrightarrow> rx_published f s = rx_published (butlast f) s @ rx_published [last f] (rx_feed (butlast f) s)"
  using rx_published_append [of "butlast f" "[last f]" s] by simp

lemma rx_published_frame:
  assumes "rx_state_wf s" and "valid_frame f"
  shows "rx_published f s = rx_published (butlast f) s @ [f]"
proof -
  have ne: "f \<noteq> []" using assms(2) by (auto simp: valid_frame_def ohc_consts)
  have "rx_published [last f] (rx_feed (butlast f) s) = [f]"
    using rx_published_last_window [OF assms(1), of f] valid_frame_synced [OF assms(2)] assms(2)
    by (simp add: valid_frame_def del: rx_published.simps)
  then show ?thesis
    using rx_published_butlast_last [OF ne, of s] by (simp del: rx_published.simps)
qed

lemma rx_published_nil_store:
  "rx_state_wf s \<Longrightarrow> rx_published bs s = [] \<Longrightarrow> snd (rx_feed bs s) = snd s"
proof (induction bs arbitrary: s)
  case Nil
  then show ?case by simp
next
  case (Cons b bs)
  then have "\<not> rx_synced (rx_shift (fst s) b)" and "rx_published bs (usart_rx_isr b s) = []"
    by (simp_all add: Let_def split: if_splits)
  then show ?case
    using Cons.IH [OF usart_rx_isr_wf [OF Cons.prems(1)]] snd_usart_rx_isr [OF Cons.prems(1)]
    by simp
qed

lemma store_typed_init: "store_typed frame_store_init"
  by (simp add: store_typed_def frame_store_init_def ohc_consts)

lemma usart_rx_isr_typed:
  assumes "rx_state_wf s" and "store_typed (snd s)"
  shows "store_typed (snd (usart_rx_isr b s))"
proof -
  let ?w = "rx_shift (fst s) b"
  have wf: "rx_wf ?w" using assms(1) by (simp add: rx_state_wf_def rx_shift_wf)
  have "rx_synced ?w \<Longrightarrow> valid_frame (win_list ?w)"
    using rx_synced_win_list [OF wf] length_win_list [OF wf] by (simp add: valid_frame_def)
  then show ?thesis
    using snd_usart_rx_isr [OF assms(1), of b] assms(2) by (simp add: store_typed_def store_publish_def)
qed

lemma rx_published_init_window:
  assumes "length f = PACKET_SIZE"
  shows "rx_published f rx_state_init = (if frame_synced f then [f] else [])"
proof -
  have ne: "f \<noteq> []" using assms by (auto simp: ohc_consts)
  have "rx_published (butlast f) rx_state_init = []"
    using assms ne by (intro rx_published_init_short) (simp add: ohc_consts)
  then show ?thesis
    using rx_published_butlast_last [OF ne, of rx_state_init] rx_published_last_window [OF rx_state_wf_init assms]
    by simp
qed

subsection \<open>Properties of the receive interrupt\<close>

text \<open>C2: refinement. On well-formed states, one receive interrupt keeps the invariant
  and commutes with the abstraction: the oldest-first window shifts by the received
  byte, and the store is published exactly when the shifted window is synchronised.\<close>

theorem isr_refines_receiver:
  assumes "rx_state_wf s"
  shows "rx_state_wf (usart_rx_isr b s) \<and> rx_abs (usart_rx_isr b s) = abs_rx_step b (rx_abs s)"
  using usart_rx_isr_wf [OF assms] usart_rx_isr_refines [OF assms] by simp

theorem isr_refines_receiver_witness:
  "rx_state_wf rx_state_init \<and>
   rx_abs (usart_rx_isr 0x55 rx_state_init) = abs_rx_step 0x55 (rx_abs rx_state_init)"
  using isr_refines_receiver [OF rx_state_wf_init, of "0x55"] rx_state_wf_init by simp

text \<open>C4: round trip. Feeding a frame built by the sender (header, type, 129 payload
  bytes, closing XOR byte) from any well-formed receiver state leaves that frame in the
  store with the flag raised and the type recovered.\<close>

theorem frame_roundtrip:
  assumes "rx_state_wf s" and "length p = 129"
  shows "has_new_packet (snd (rx_feed (mk_frame t p) s)) \<and>
         new_packet (snd (rx_feed (mk_frame t p) s)) = mk_frame t p \<and>
         packet_type (snd (rx_feed (mk_frame t p) s)) = t"
  using rx_feed_frame [OF assms(1) mk_frame_valid [OF assms(2)]]
  by (simp add: store_publish_def mk_frame_def)

theorem frame_roundtrip_witness:
  "has_new_packet (snd (rx_feed (mk_frame 2 (replicate 129 7)) rx_state_init)) \<and>
   new_packet (snd (rx_feed (mk_frame 2 (replicate 129 7)) rx_state_init)) = mk_frame 2 (replicate 129 7) \<and>
   packet_type (snd (rx_feed (mk_frame 2 (replicate 129 7)) rx_state_init)) = 2"
  using frame_roundtrip [OF rx_state_wf_init, of "replicate 129 7" 2] by simp

text \<open>C5: from power-on, a valid frame fed byte by byte is published exactly once,
  at its last byte.\<close>

theorem power_on_single_frame:
  assumes "valid_frame f"
  shows "rx_published f rx_state_init = [f]"
proof -
  have "length (butlast f) < PACKET_SIZE"
    using assms by (simp add: valid_frame_def ohc_consts)
  then show ?thesis
    using rx_published_frame [OF rx_state_wf_init assms] rx_published_init_short by simp
qed

theorem power_on_single_frame_witness:
  "valid_frame (mk_frame 4 (replicate 129 1)) \<and>
   rx_published (mk_frame 4 (replicate 129 1)) rx_state_init = [mk_frame 4 (replicate 129 1)]"
  using power_on_single_frame [OF mk_frame_valid [of "replicate 129 1" 4]] mk_frame_valid [of "replicate 129 1" 4]
  by simp

text \<open>C6: latest wins. Two valid frames received back to back, before the main loop
  consumes anything, leave only the second in the store: it is the last frame published
  and the one the consumer takes.\<close>

theorem latest_wins:
  assumes "rx_state_wf s" and "valid_frame f1" and "valid_frame f2"
  shows "store_take (snd (rx_feed (f1 @ f2) s)) =
           Some (f2 ! 1, (snd (rx_feed (f1 @ f2) s))\<lparr>has_new_packet := False\<rparr>) \<and>
         new_packet (snd (rx_feed (f1 @ f2) s)) = f2 \<and>
         last (rx_published (f1 @ f2) s) = f2"
proof -
  have wf: "rx_state_wf (rx_feed f1 s)" using assms(1) by (rule rx_feed_wf)
  have st: "snd (rx_feed f2 (rx_feed f1 s)) = store_publish f2 (snd (rx_feed (butlast f2) (rx_feed f1 s)))"
    using wf assms(3) by (rule rx_feed_frame)
  have "last (rx_published f2 (rx_feed f1 s)) = f2"
    using rx_published_frame [OF wf assms(3)] by simp
  then show ?thesis
    using st rx_published_frame [OF wf assms(3)]
    by (simp add: rx_published_append store_take_def store_publish_def)
qed

theorem latest_wins_witness:
  "new_packet (snd (rx_feed (mk_frame 2 (replicate 129 7) @ mk_frame 5 (replicate 129 0)) rx_state_init)) =
     mk_frame 5 (replicate 129 0) \<and>
   last (rx_published (mk_frame 2 (replicate 129 7) @ mk_frame 5 (replicate 129 0)) rx_state_init) =
     mk_frame 5 (replicate 129 0)"
  using latest_wins [OF rx_state_wf_init mk_frame_valid [of "replicate 129 7" 2]
                        mk_frame_valid [of "replicate 129 0" 5]]
  by simp

text \<open>C7: the spec's "exactly one frame" does not hold in general. If a valid frame
  has the header value in its type byte, receiving it twice in a row publishes a
  spurious rotated frame on the very first byte of the repetition, before the genuine
  one: at least two frames for one frame sent.\<close>

theorem repeated_frame_spurious:
  assumes "rx_state_wf s" and "valid_frame f" and "f ! 1 = PACKET_HEADER"
  shows "hd (rx_published f (rx_feed f s)) = rotate1 f \<and>
         2 \<le> length (rx_published f (rx_feed f s))"
proof -
  let ?s = "rx_feed f s"
  have wf: "rx_state_wf ?s" using assms(1) by (rule rx_feed_wf)
  have len: "length f = PACKET_SIZE" using assms(2) by (simp add: valid_frame_def)
  have w: "win_list (fst ?s) = f" using assms(1) len by (rule win_list_rx_feed_frame)
  obtain x y ys where f: "f = x # y # ys"
    using len by (cases f rule: remdups_adj.cases) (simp_all add: ohc_consts)
  have "xor_list (rotate1 f) = 0"
    using assms(2) by (simp add: valid_frame_def)
  moreover have "hd (rotate1 f) = PACKET_HEADER"
    using assms(3) f by simp
  ultimately have sync: "frame_synced (rotate1 f)"
    by (simp add: frame_synced_def)
  have first: "rx_published [x] ?s = [rotate1 f]"
    using rx_published_single [OF wf, of x] w sync f by (simp add: Let_def del: rx_published.simps)
  have "rx_published f ?s = rx_published (butlast f) ?s @ [f]"
    by (rule rx_published_frame [OF wf assms(2)])
  also have "butlast f = [x] @ butlast (y # ys)"
    using f by simp
  finally have "rx_published f ?s = rotate1 f # rx_published (butlast (y # ys)) (rx_feed [x] ?s) @ [f]"
    using first by (simp only: rx_published_append) simp
  then show ?thesis by simp
qed

theorem repeated_frame_spurious_witness:
  "valid_frame (mk_frame 0x55 (replicate 129 0)) \<and> mk_frame 0x55 (replicate 129 0) ! 1 = PACKET_HEADER \<and>
   2 \<le> length (rx_published (mk_frame 0x55 (replicate 129 0))
                (rx_feed (mk_frame 0x55 (replicate 129 0)) rx_state_init))"
  using repeated_frame_spurious [OF rx_state_wf_init mk_frame_valid [of "replicate 129 0" "0x55"]]
    mk_frame_valid [of "replicate 129 0" "0x55"]
  by (simp add: ohc_consts)

text \<open>C8: after power-on the flag stays down, and the store keeps its zero contents,
  until at least 132 bytes have been received.\<close>

theorem no_frame_before_full_window:
  assumes "length bs < PACKET_SIZE"
  shows "\<not> has_new_packet (snd (rx_feed bs rx_state_init)) \<and>
         new_packet (snd (rx_feed bs rx_state_init)) = replicate PACKET_SIZE 0"
  using rx_published_nil_store [OF rx_state_wf_init rx_published_init_short [OF assms]]
  by (simp add: rx_state_init_def frame_store_init_def)

theorem no_frame_before_full_window_witness:
  "length [0x55, 0x55, (0::byte)] < PACKET_SIZE \<and>
   \<not> has_new_packet (snd (rx_feed [0x55, 0x55, 0] rx_state_init))"
  using no_frame_before_full_window [of "[0x55, 0x55, 0]"] by (simp add: ohc_consts)

text \<open>C29: error detection. From power-on, a frame with any single byte corrupted
  (any position, any nonzero error pattern) is never published: the closing
  exclusive-or no longer cancels, so the interrupt leaves the store at its power-on
  contents and the main loop is never signalled.\<close>

theorem corrupted_frame_rejected:
  assumes "valid_frame f" and "i < PACKET_SIZE" and "e \<noteq> 0"
  shows "rx_published (f[i := f ! i XOR e]) rx_state_init = [] \<and>
         snd (rx_feed (f[i := f ! i XOR e]) rx_state_init) = frame_store_init"
proof -
  let ?g = "f[i := f ! i XOR e]"
  have len: "length ?g = PACKET_SIZE" using assms(1) by (simp add: valid_frame_def)
  have "xor_list ?g = e"
    using assms(1,2) xor_list_update [of i f "f ! i XOR e"]
    by (simp add: valid_frame_def xor.assoc [symmetric])
  then have "\<not> frame_synced ?g" using assms(3) by (simp add: frame_synced_def)
  then have pub: "rx_published ?g rx_state_init = []"
    using rx_published_init_window [OF len] by simp
  then show ?thesis
    using rx_published_nil_store [OF rx_state_wf_init pub] by (simp add: rx_state_init_def)
qed

theorem corrupted_frame_rejected_witness:
  "valid_frame (mk_frame 2 (replicate 129 7)) \<and>
   rx_published ((mk_frame 2 (replicate 129 7))[40 := mk_frame 2 (replicate 129 7) ! 40 XOR 0x10]) rx_state_init = []"
  using corrupted_frame_rejected [of "mk_frame 2 (replicate 129 7)" 40 "0x10"] mk_frame_valid [of "replicate 129 7" 2]
  by (simp add: ohc_consts)

end
