(* ===== verification/Message.thy ===== *)
theory Message
  imports OHC_Prelude
begin

text \<open>
  The transport collaborator. \<^verbatim>\<open>message.h\<close> is not part of the repository, so
  the message record is modelled from the spec and from the way \<^verbatim>\<open>src/ohc.c\<close>
  uses it: \<^verbatim>\<open>message_t\<close> is 12 raw bytes (\<^verbatim>\<open>msg.rawdata\<close>), nine data bytes,
  the type at offset 9 and a 16-bit checksum at offsets 10--11 (little-endian, as on the
  AVR). The boot-page view puts the page address at 0, the page offset at 1, three
  16-bit words at 2--7 and an unused byte at 8; the GPS view is a 7-byte fragment at
  0--6 (its \<open>id\<close> at 0) and an unused byte at 7. \<^verbatim>\<open>message_crc\<close> is opaque: the
  dispatcher takes it as a parameter \<open>crcf\<close>. \<^verbatim>\<open>message_send\<close> and the LED port
  writes are the observable events of \<open>out_event\<close>. \<open>write_at\<close> is
  \<^verbatim>\<open>memcpy\<close> into a byte array.
\<close>

type_synonym message = "byte list"

definition MSG_SIZE :: nat where
  "MSG_SIZE = 12"

definition MSG_CRC_SIZE :: nat where
  "MSG_CRC_SIZE = 2"

definition MSG_TYPE :: nat where
  "MSG_TYPE = 9"

definition GPS :: byte where
  "GPS = 1"

definition BOOTPGM_PAGE :: byte where
  "BOOTPGM_PAGE = 0x81"

declare MSG_SIZE_def [ohc_consts] MSG_CRC_SIZE_def [ohc_consts] MSG_TYPE_def [ohc_consts]
  GPS_def [ohc_consts] BOOTPGM_PAGE_def [ohc_consts]

text \<open>\<^verbatim>\<open>msg.crc = message_crc(&msg)\<close>: the 16-bit result stored low byte first.\<close>

definition set_crc :: "(message \<Rightarrow> 16 word) \<Rightarrow> message \<Rightarrow> message" where
  "set_crc crcf m =
     (let c = crcf m in m[MSG_SIZE - 2 := ucast c, MSG_SIZE - 1 := ucast (drop_bit 8 c)])"

primrec write_at :: "nat \<Rightarrow> byte list \<Rightarrow> byte list \<Rightarrow> byte list" where
  "write_at off [] xs = xs"
| "write_at off (b # bs) xs = write_at (Suc off) bs (xs[off := b])"

datatype out_event = Sent message | Blue bool | Green bool

lemma length_write_at [simp]: "length (write_at off bs xs) = length xs"
  by (induction bs arbitrary: off xs) simp_all

lemma length_set_crc [simp]: "length (set_crc crcf m) = length m"
  by (simp add: set_crc_def Let_def)

lemma write_at_eq:
  "off + length bs \<le> length xs \<Longrightarrow> write_at off bs xs = take off xs @ bs @ drop (off + length bs) xs"
proof (induction bs arbitrary: off xs)
  case Nil
  then show ?case by simp
next
  case (Cons b bs)
  then have "write_at (Suc off) bs (xs[off := b]) =
               take (Suc off) (xs[off := b]) @ bs @ drop (Suc off + length bs) (xs[off := b])"
    by (intro Cons.IH) simp
  with Cons.prems show ?case
    by (simp add: take_Suc_conv_app_nth upd_conv_take_nth_drop add.commute)
qed

end
