(* ===== verification/Dispatcher.thy ===== *)
theory Dispatcher
  imports Frame_Store Message
begin

text \<open>
  The main loop of \<^verbatim>\<open>main()\<close> (\<^verbatim>\<open>src/ohc.c\<close> lines 74--146) as a small-step
  machine. Its program counter \<open>main_pc\<close> names the statements between which the
  receive interrupt may run: the flag test (75), the flag clear (76), the switch (77),
  each iteration of each copy and relay loop, and the interrupt-disabled boot-page and
  GPS loops. \<open>main_state\<close> holds the main loop's globals (\<^verbatim>\<open>i\<close>,
  \<^verbatim>\<open>leds_toggle\<close>, \<^verbatim>\<open>msg\<close>), the blue LED port bit, the interrupt-enable bit of
  \<^verbatim>\<open>SREG\<close> (\<^verbatim>\<open>cli\<close>/\<^verbatim>\<open>sei\<close>) and the trace of observable events (messages
  sent, LED port writes). One step reads the frame store and, at line 76 only, writes it.
  The memory after \<^verbatim>\<open>new_packet\<close>, which the boot-page loop reads past the end of the
  array, is the parameter \<open>oob\<close>; \<^verbatim>\<open>message_crc\<close> is the parameter \<open>crcf\<close>.
\<close>

definition PACKET_STOP :: byte where "PACKET_STOP = 0"
definition PACKET_LEDTOGGLE :: byte where "PACKET_LEDTOGGLE = 1"
definition PACKET_FORWARDMSG :: byte where "PACKET_FORWARDMSG = 2"
definition PACKET_FORWARDRAWMSG :: byte where "PACKET_FORWARDRAWMSG = 3"
definition PACKET_BOOTPAGE :: byte where "PACKET_BOOTPAGE = 4"
definition PACKET_GPSFRAME :: byte where "PACKET_GPSFRAME = 5"

text \<open>\<^verbatim>\<open>SPM_PAGESIZE\<close> of the ATmega328P (avr-libc), the bound of the boot-page
  loop.\<close>

definition SPM_PAGESIZE :: nat where "SPM_PAGESIZE = 128"

declare PACKET_STOP_def [ohc_consts] PACKET_LEDTOGGLE_def [ohc_consts]
  PACKET_FORWARDMSG_def [ohc_consts] PACKET_FORWARDRAWMSG_def [ohc_consts]
  PACKET_BOOTPAGE_def [ohc_consts] PACKET_GPSFRAME_def [ohc_consts] SPM_PAGESIZE_def [ohc_consts]

datatype main_pc =
    Reset | Flash_test | Flash_off
  | Poll | Clear | Switch
  | Fwd_copy | Fwd_crc | Fwd_test | Fwd_send
  | Raw_copy | Raw_test | Raw_send
  | Boot_hdr | Boot_cli | Boot_loop | Boot_done
  | Gps_hdr | Gps_cli | Gps_loop | Gps_done

record main_state =
  pc :: main_pc
  loop_i :: byte
  leds_toggle :: bool
  msg :: message
  blue_on :: bool
  int_enabled :: bool
  trace :: "out_event list"

text \<open>The state at the entry of \<^verbatim>\<open>main()\<close> (line 35): the C start-up code has
  zeroed the globals, the \<^verbatim>\<open>SREG\<close> I-bit is clear after reset, the LEDs are off.
  The local \<^verbatim>\<open>i\<close> is uninitialised; line 65 sets it before any read.\<close>

definition main_reset :: main_state where
  "main_reset = \<lparr>pc = Reset, loop_i = 0, leds_toggle = False, msg = replicate MSG_SIZE 0,
                 blue_on = False, int_enabled = False, trace = []\<rparr>"

text \<open>The state when the main loop is entered (line 74): the power-on blink left
  \<^verbatim>\<open>i = 5\<close> and both LEDs off, interrupts are enabled (line 59), the rest is
  zero-initialised.\<close>

definition main_init :: main_state where
  "main_init = \<lparr>pc = Poll, loop_i = 5, leds_toggle = False, msg = replicate MSG_SIZE 0,
                blue_on = False, int_enabled = True, trace = []\<rparr>"

text \<open>\<^verbatim>\<open>message_send(&msg)\<close> and the green pulse of lines 93--96 (on, 3 ms, off,
  3 ms; the other pulses differ only in their delays).\<close>

definition send_msg :: "main_state \<Rightarrow> main_state" where
  "send_msg m = m\<lparr>trace := trace m @ [Sent (msg m)]\<rparr>"

definition green_pulse :: "main_state \<Rightarrow> main_state" where
  "green_pulse m = m\<lparr>trace := trace m @ [Green True, Green False]\<rparr>"

text \<open>Reading \<^verbatim>\<open>new_packet[k]\<close>; past the 132 bytes of the array the read returns
  whatever memory follows it.\<close>

definition np_read :: "(nat \<Rightarrow> byte) \<Rightarrow> frame_store \<Rightarrow> nat \<Rightarrow> byte" where
  "np_read oob st k = (if k < PACKET_SIZE then new_packet st ! k else oob (k - PACKET_SIZE))"

subsection \<open>The power-on sequence\<close>

text \<open>Lines 36--65 run with interrupts disabled from \<^verbatim>\<open>cli()\<close> to \<^verbatim>\<open>sei()\<close>
  (line 59); the port, comparator, vector and UART set-up between them has no effect on
  the modelled state. Then \<^verbatim>\<open>i = 0\<close> starts the blink loop of lines 65--72, in which
  the receive interrupt may already run.\<close>

definition reset_step :: "main_state \<Rightarrow> main_state" where
  "reset_step m = m\<lparr>int_enabled := True, loop_i := 0, pc := Flash_test\<rparr>"

definition flash_test_step :: "main_state \<Rightarrow> main_state" where
  "flash_test_step m =
     (if unat (loop_i m) < 5
      then m\<lparr>blue_on := True, trace := trace m @ [Blue True, Green True], pc := Flash_off\<rparr>
      else m\<lparr>pc := Poll\<rparr>)"

definition flash_off_step :: "main_state \<Rightarrow> main_state" where
  "flash_off_step m =
     m\<lparr>blue_on := False, trace := trace m @ [Blue False, Green False], loop_i := loop_i m + 1,
       pc := Flash_test\<rparr>"

text \<open>The statements before the main loop: interrupts are disabled at \<open>Reset\<close> and
  the blink reads nothing the interrupt writes.\<close>

definition startup_region :: "main_pc set" where
  "startup_region = {Reset, Flash_test, Flash_off}"

text \<open>What one iteration of the blink writes to the LED ports (lines 66--70), and what
  the whole blink writes.\<close>

definition blink :: "out_event list" where
  "blink = [Blue True, Green True, Blue False, Green False]"

definition power_on_trace :: "out_event list" where
  "power_on_trace = concat (replicate 5 blink)"

subsection \<open>The statements of the main loop\<close>

definition poll_step :: "frame_store \<Rightarrow> main_state \<Rightarrow> main_state" where
  "poll_step st m = (if has_new_packet st then m\<lparr>pc := Clear\<rparr> else m)"

definition clear_step :: "frame_store \<Rightarrow> main_state \<Rightarrow> frame_store \<times> main_state" where
  "clear_step st m = (st\<lparr>has_new_packet := False\<rparr>, m\<lparr>pc := Switch\<rparr>)"

definition led_toggle :: "main_state \<Rightarrow> main_state" where
  "led_toggle m =
     (let t = \<not> leds_toggle m
      in m\<lparr>leds_toggle := t, blue_on := t, trace := trace m @ [Blue t], pc := Poll\<rparr>)"

definition switch_step :: "frame_store \<Rightarrow> main_state \<Rightarrow> main_state" where
  "switch_step st m =
     (let t = packet_type st
      in if t = PACKET_STOP then m\<lparr>pc := Poll\<rparr>
         else if t = PACKET_LEDTOGGLE then led_toggle m
         else if t = PACKET_FORWARDMSG then m\<lparr>loop_i := 0, pc := Fwd_copy\<rparr>
         else if t = PACKET_FORWARDRAWMSG then m\<lparr>loop_i := 0, pc := Raw_copy\<rparr>
         else if t = PACKET_BOOTPAGE then m\<lparr>pc := Boot_hdr\<rparr>
         else if t = PACKET_GPSFRAME then m\<lparr>pc := Gps_hdr\<rparr>
         else m\<lparr>pc := Poll\<rparr>)"

definition fwd_copy_step :: "(nat \<Rightarrow> byte) \<Rightarrow> frame_store \<Rightarrow> main_state \<Rightarrow> main_state" where
  "fwd_copy_step oob st m =
     (let i = loop_i m
      in if unat i < MSG_SIZE - MSG_CRC_SIZE
         then m\<lparr>msg := (msg m)[unat i := np_read oob st (unat i + 2)], loop_i := i + 1\<rparr>
         else m\<lparr>pc := Fwd_crc\<rparr>)"

definition fwd_crc_step :: "(message \<Rightarrow> 16 word) \<Rightarrow> main_state \<Rightarrow> main_state" where
  "fwd_crc_step crcf m = m\<lparr>msg := set_crc crcf (msg m), pc := Fwd_test\<rparr>"

definition fwd_test_step :: "frame_store \<Rightarrow> main_state \<Rightarrow> main_state" where
  "fwd_test_step st m = (if has_new_packet st then m\<lparr>pc := Poll\<rparr> else m\<lparr>pc := Fwd_send\<rparr>)"

definition fwd_send_step :: "main_state \<Rightarrow> main_state" where
  "fwd_send_step m = (green_pulse (send_msg m))\<lparr>pc := Fwd_test\<rparr>"

definition raw_copy_step :: "(nat \<Rightarrow> byte) \<Rightarrow> frame_store \<Rightarrow> main_state \<Rightarrow> main_state" where
  "raw_copy_step oob st m =
     (let i = loop_i m
      in if unat i < MSG_SIZE
         then m\<lparr>msg := (msg m)[unat i := np_read oob st (unat i + 2)], loop_i := i + 1\<rparr>
         else m\<lparr>pc := Raw_test\<rparr>)"

definition raw_test_step :: "frame_store \<Rightarrow> main_state \<Rightarrow> main_state" where
  "raw_test_step st m = (if has_new_packet st then m\<lparr>pc := Poll\<rparr> else m\<lparr>pc := Raw_send\<rparr>)"

definition raw_send_step :: "main_state \<Rightarrow> main_state" where
  "raw_send_step m = (green_pulse (send_msg m))\<lparr>pc := Raw_test\<rparr>"

definition boot_hdr_step :: "frame_store \<Rightarrow> main_state \<Rightarrow> main_state" where
  "boot_hdr_step st m =
     m\<lparr>msg := (msg m)[MSG_TYPE := BOOTPGM_PAGE, 0 := new_packet st ! 2, 8 := 0], pc := Boot_cli\<rparr>"

definition boot_cli_step :: "main_state \<Rightarrow> main_state" where
  "boot_cli_step m = m\<lparr>int_enabled := False, loop_i := 0, pc := Boot_loop\<rparr>"

text \<open>One iteration of lines 115--120: the guard, then page offset \<open>i/2\<close>, six bytes
  from \<^verbatim>\<open>new_packet+3+i\<close>, checksum, send, and \<open>i += 6\<close> on the 8-bit counter.\<close>

definition boot_msg :: "(message \<Rightarrow> 16 word) \<Rightarrow> (nat \<Rightarrow> byte) \<Rightarrow> frame_store \<Rightarrow> byte \<Rightarrow> message \<Rightarrow> message" where
  "boot_msg crcf oob st i m =
     set_crc crcf (write_at 2 (map (np_read oob st) [3 + unat i..<9 + unat i]) (m[1 := i div 2]))"

definition boot_loop_step ::
  "(message \<Rightarrow> 16 word) \<Rightarrow> (nat \<Rightarrow> byte) \<Rightarrow> frame_store \<Rightarrow> main_state \<Rightarrow> main_state" where
  "boot_loop_step crcf oob st m =
     (let i = loop_i m
      in if unat i < SPM_PAGESIZE \<and> \<not> has_new_packet st
         then (send_msg (m\<lparr>msg := boot_msg crcf oob st i (msg m)\<rparr>))\<lparr>loop_i := i + 6\<rparr>
         else m\<lparr>pc := Boot_done\<rparr>)"

definition boot_done_step :: "main_state \<Rightarrow> main_state" where
  "boot_done_step m = (green_pulse (m\<lparr>int_enabled := True\<rparr>))\<lparr>pc := Poll\<rparr>"

definition gps_hdr_step :: "main_state \<Rightarrow> main_state" where
  "gps_hdr_step m = m\<lparr>msg := (msg m)[MSG_TYPE := GPS, 7 := 0], pc := Gps_cli\<rparr>"

definition gps_cli_step :: "main_state \<Rightarrow> main_state" where
  "gps_cli_step m = m\<lparr>int_enabled := False, loop_i := 2, pc := Gps_loop\<rparr>"

text \<open>One iteration of lines 131--137: the bound \<open>i < PACKET_SIZE - 7\<close>, the 7-byte
  copy, the \<open>id == 0\<close> break (after the copy), checksum, send, \<open>i += 7\<close>.\<close>

definition gps_loop_step ::
  "(message \<Rightarrow> 16 word) \<Rightarrow> (nat \<Rightarrow> byte) \<Rightarrow> frame_store \<Rightarrow> main_state \<Rightarrow> main_state" where
  "gps_loop_step crcf oob st m =
     (let i = loop_i m
      in if unat i < PACKET_SIZE - 7
         then (let m1 = write_at 0 (map (np_read oob st) [unat i..<unat i + 7]) (msg m)
               in if m1 ! 0 = 0 then m\<lparr>msg := m1, pc := Gps_done\<rparr>
                  else (send_msg (m\<lparr>msg := set_crc crcf m1\<rparr>))\<lparr>loop_i := i + 7\<rparr>)
         else m\<lparr>pc := Gps_done\<rparr>)"

definition gps_done_step :: "main_state \<Rightarrow> main_state" where
  "gps_done_step m = (green_pulse (m\<lparr>int_enabled := True\<rparr>))\<lparr>pc := Poll\<rparr>"

text \<open>One step of the main loop, by its program counter.\<close>

fun main_step ::
  "(message \<Rightarrow> 16 word) \<Rightarrow> (nat \<Rightarrow> byte) \<Rightarrow> frame_store \<times> main_state \<Rightarrow> frame_store \<times> main_state" where
  "main_step crcf oob (st, m) =
     (case pc m of
        Reset \<Rightarrow> (st, reset_step m)
      | Flash_test \<Rightarrow> (st, flash_test_step m)
      | Flash_off \<Rightarrow> (st, flash_off_step m)
      | Poll \<Rightarrow> (st, poll_step st m)
      | Clear \<Rightarrow> clear_step st m
      | Switch \<Rightarrow> (st, switch_step st m)
      | Fwd_copy \<Rightarrow> (st, fwd_copy_step oob st m)
      | Fwd_crc \<Rightarrow> (st, fwd_crc_step crcf m)
      | Fwd_test \<Rightarrow> (st, fwd_test_step st m)
      | Fwd_send \<Rightarrow> (st, fwd_send_step m)
      | Raw_copy \<Rightarrow> (st, raw_copy_step oob st m)
      | Raw_test \<Rightarrow> (st, raw_test_step st m)
      | Raw_send \<Rightarrow> (st, raw_send_step m)
      | Boot_hdr \<Rightarrow> (st, boot_hdr_step st m)
      | Boot_cli \<Rightarrow> (st, boot_cli_step m)
      | Boot_loop \<Rightarrow> (st, boot_loop_step crcf oob st m)
      | Boot_done \<Rightarrow> (st, boot_done_step m)
      | Gps_hdr \<Rightarrow> (st, gps_hdr_step m)
      | Gps_cli \<Rightarrow> (st, gps_cli_step m)
      | Gps_loop \<Rightarrow> (st, gps_loop_step crcf oob st m)
      | Gps_done \<Rightarrow> (st, gps_done_step m))"

text \<open>\<open>n\<close> main-loop steps with no interrupt in between.\<close>

fun main_run ::
  "(message \<Rightarrow> 16 word) \<Rightarrow> (nat \<Rightarrow> byte) \<Rightarrow> nat \<Rightarrow> frame_store \<times> main_state \<Rightarrow> frame_store \<times> main_state" where
  "main_run crcf oob 0 s = s"
| "main_run crcf oob (Suc n) s = main_run crcf oob n (main_step crcf oob s)"

text \<open>The messages the boot-page loop sends in \<open>k\<close> iterations from iteration \<open>j\<close>
  (counter \<open>6 * j\<close>), each built over the previous one: the reference the loop is
  proved against.\<close>

fun boot_sends ::
  "(message \<Rightarrow> 16 word) \<Rightarrow> (nat \<Rightarrow> byte) \<Rightarrow> frame_store \<Rightarrow> nat \<Rightarrow> nat \<Rightarrow> message \<Rightarrow> message list" where
  "boot_sends crcf oob st j 0 m = []"
| "boot_sends crcf oob st j (Suc k) m =
     (let m' = boot_msg crcf oob st (of_nat (6 * j)) m in m' # boot_sends crcf oob st (Suc j) k m')"

text \<open>The GPS fragments of a frame: 7 bytes at payload offsets \<open>2 + 7 * j\<close>, and the
  messages the GPS loop sends from fragment \<open>j\<close> on, stopping before a fragment
  whose \<open>id\<close> is zero.\<close>

definition gps_fragment :: "frame_store \<Rightarrow> nat \<Rightarrow> byte list" where
  "gps_fragment st j = map (\<lambda>k. new_packet st ! k) [2 + 7 * j..<9 + 7 * j]"

fun gps_sends ::
  "(message \<Rightarrow> 16 word) \<Rightarrow> frame_store \<Rightarrow> nat \<Rightarrow> nat \<Rightarrow> message \<Rightarrow> message list" where
  "gps_sends crcf st j 0 m = []"
| "gps_sends crcf st j (Suc k) m =
     (let m1 = write_at 0 (gps_fragment st j) m
      in if m1 ! 0 = 0 then [] else set_crc crcf m1 # gps_sends crcf st (Suc j) k (set_crc crcf m1))"

text \<open>The statements of \<^verbatim>\<open>main()\<close>, for the proofs that go through every
  program counter.\<close>

lemmas main_stmt_defs = reset_step_def flash_test_step_def flash_off_step_def poll_step_def
  clear_step_def switch_step_def led_toggle_def fwd_copy_step_def fwd_crc_step_def fwd_test_step_def
  fwd_send_step_def raw_copy_step_def raw_test_step_def raw_send_step_def boot_hdr_step_def
  boot_cli_step_def boot_loop_step_def boot_done_step_def gps_hdr_step_def gps_cli_step_def
  gps_loop_step_def gps_done_step_def send_msg_def green_pulse_def

subsection \<open>Runs of the machine and the power-on sequence\<close>

text \<open>Inside the array a read of \<^verbatim>\<open>new_packet\<close> is the list element.\<close>

lemma np_read_lt: "k < PACKET_SIZE \<Longrightarrow> np_read oob st k = new_packet st ! k"
  by (simp add: np_read_def)

lemma map_np_read: "b \<le> PACKET_SIZE \<Longrightarrow> map (np_read oob st) [a..<b] = map (\<lambda>k. new_packet st ! k) [a..<b]"
  by (simp add: np_read_def)

lemma main_run_add: "main_run crcf oob (a + b) s = main_run crcf oob b (main_run crcf oob a s)"
  by (induction a arbitrary: s) simp_all

lemma unat_of_nat_byte [simp]: "n < 256 \<Longrightarrow> unat (of_nat n :: byte) = n"
  by (simp add: unat_of_nat)

lemma main_run_Suc_last:
  "main_run crcf oob (Suc n) s = main_step crcf oob (main_run crcf oob n s)"
  using main_run_add [of crcf oob n 1 s] by simp

text \<open>Lines 75--77 with the flag raised: three steps take the frame and dispatch it.\<close>

lemma dispatch_run:
  assumes "pc m = Poll" and "has_new_packet st"
  shows "main_run crcf oob 3 (st, m) = (st\<lparr>has_new_packet := False\<rparr>, switch_step st (m\<lparr>pc := Switch\<rparr>))"
  using assms by (simp add: numeral_3_eq_3 poll_step_def clear_step_def switch_step_def Let_def)

lemma main_step_startup:
  "pc m \<in> startup_region \<Longrightarrow> main_step crcf oob (st, m) = (st, snd (main_step crcf oob (st', m)))"
  by (auto simp: startup_region_def)

lemma blink_iter:
  assumes "j + k \<le> 5" and "pc m = Flash_test" and "loop_i m = of_nat j" and "\<not> blue_on m"
  shows "main_run crcf oob (2 * k) (st, m) =
           (st, m\<lparr>trace := trace m @ concat (replicate k blink), loop_i := of_nat (j + k)\<rparr>)"
  using assms
proof (induction k arbitrary: j m)
  case 0
  then show ?case by simp
next
  case (Suc k)
  let ?m1 = "m\<lparr>trace := trace m @ blink, loop_i := of_nat (Suc j)\<rparr>"
  have "main_run crcf oob 2 (st, m) = (st, ?m1)"
    using Suc.prems
    by (simp add: numeral_2_eq_2 flash_test_step_def flash_off_step_def blink_def)
  moreover have "main_run crcf oob (2 * k) (st, ?m1) =
          (st, ?m1\<lparr>trace := trace ?m1 @ concat (replicate k blink), loop_i := of_nat (Suc j + k)\<rparr>)"
    using Suc.prems by (intro Suc.IH) simp_all
  ultimately show ?case
    using main_run_add [of crcf oob 2 "2 * k" "(st, m)"] by (simp add: replicate_app_Cons_same)
qed

text \<open>The state after \<open>i\<close> blinks, at the loop test.\<close>

lemma startup_blink:
  assumes "i \<le> 5"
  shows "main_run crcf oob (Suc (2 * i)) (st, main_reset) =
           (st, (reset_step main_reset)\<lparr>trace := concat (replicate i blink), loop_i := of_nat i\<rparr>)"
proof -
  have "main_run crcf oob (2 * i) (st, reset_step main_reset) =
          (st, (reset_step main_reset)\<lparr>trace := trace (reset_step main_reset) @ concat (replicate i blink),
                                       loop_i := of_nat (0 + i)\<rparr>)"
    using assms by (intro blink_iter) (simp_all add: reset_step_def main_reset_def)
  moreover have "main_step crcf oob (st, main_reset) = (st, reset_step main_reset)"
    by (simp add: main_reset_def)
  ultimately show ?thesis
    by (simp add: reset_step_def main_reset_def)
qed

lemma startup_run:
  "main_run crcf oob 12 (st, main_reset) = (st, main_init\<lparr>trace := power_on_trace\<rparr>)"
  using startup_blink [of 5 crcf oob st] main_run_Suc_last [of crcf oob 11 "(st, main_reset)"]
  by (simp add: flash_test_step_def reset_step_def main_reset_def main_init_def power_on_trace_def)

text \<open>Until the main loop is entered, the program is in the start-up statements, and
  from the first step on it runs with interrupts enabled.\<close>

lemma startup_states:
  assumes "k < 12"
  shows "pc (snd (main_run crcf oob k (st, main_reset))) \<in> startup_region \<and>
         (0 < k \<longrightarrow> int_enabled (snd (main_run crcf oob k (st, main_reset))))"
proof (cases "even k")
  case True
  then obtain i where k: "k = 2 * i" by (rule evenE)
  show ?thesis
  proof (cases i)
    case 0
    then show ?thesis using k by (simp add: main_reset_def startup_region_def)
  next
    case (Suc h)
    then have "h < 5" using assms k by simp
    then have "main_run crcf oob k (st, main_reset) =
                 main_step crcf oob (st, (reset_step main_reset)\<lparr>trace := concat (replicate h blink), loop_i := of_nat h\<rparr>)"
      using k Suc startup_blink [of h crcf oob st] main_run_Suc_last [of crcf oob "Suc (2 * h)" "(st, main_reset)"]
      by simp
    then show ?thesis
      using \<open>h < 5\<close> by (simp add: reset_step_def main_reset_def flash_test_step_def startup_region_def)
  qed
next
  case False
  then obtain i where k: "k = 2 * i + 1" by (rule oddE)
  then have "i \<le> 5" using assms by simp
  then show ?thesis
    using k startup_blink [of i crcf oob st] by (simp add: reset_step_def main_reset_def startup_region_def)
qed

subsection \<open>The boot-page loop\<close>

lemma boot_loop_iter:
  assumes "j + k \<le> 22" and "pc m = Boot_loop" and "loop_i m = of_nat (6 * j)"
    and "\<not> has_new_packet st"
  shows "main_run crcf oob k (st, m) =
           (st, m\<lparr>loop_i := of_nat (6 * (j + k)), msg := last (msg m # boot_sends crcf oob st j k (msg m)),
                  trace := trace m @ map Sent (boot_sends crcf oob st j k (msg m))\<rparr>)"
  using assms
proof (induction k arbitrary: j m)
  case 0
  then show ?case by simp
next
  case (Suc k)
  let ?m1 = "boot_msg crcf oob st (of_nat (6 * j)) (msg m)"
  let ?s1 = "m\<lparr>msg := ?m1, trace := trace m @ [Sent ?m1], loop_i := of_nat (6 * Suc j)\<rparr>"
  have u: "unat (loop_i m) = 6 * j"
    unfolding Suc.prems(3) using Suc.prems(1) by (intro unat_of_nat_byte) simp
  have i1: "loop_i m + 6 = of_nat (6 * Suc j)"
    using Suc.prems(3) by simp
  have "main_step crcf oob (st, m) = (st, ?s1)"
    using Suc.prems u i1 by (simp add: boot_loop_step_def send_msg_def Let_def ohc_consts)
  moreover have "main_run crcf oob k (st, ?s1) =
           (st, ?s1\<lparr>loop_i := of_nat (6 * (Suc j + k)),
                     msg := last (?m1 # boot_sends crcf oob st (Suc j) k ?m1),
                     trace := trace ?s1 @ map Sent (boot_sends crcf oob st (Suc j) k ?m1)\<rparr>)"
    using Suc.IH [of "Suc j" ?s1] Suc.prems by simp
  ultimately show ?case
    by (simp add: Let_def)
qed

lemma length_boot_sends [simp]: "length (boot_sends crcf oob st j k m) = k"
  by (induction k arbitrary: j m) (simp_all add: Let_def)

lemma boot_loop_exit:
  assumes "pc m = Boot_loop" and "SPM_PAGESIZE \<le> unat (loop_i m) \<or> has_new_packet st"
  shows "main_step crcf oob (st, m) = (st, m\<lparr>pc := Boot_done\<rparr>)"
  using assms by (auto simp: boot_loop_step_def Let_def)

lemma boot_msg_length [simp]: "length (boot_msg crcf oob st i m) = length m"
  by (simp add: boot_msg_def)

lemma last_boot_sends:
  "\<exists>m'. length m' = length m \<and>
        last (boot_sends crcf oob st j (Suc k) m) = boot_msg crcf oob st (of_nat (6 * (j + k))) m'"
proof (induction k arbitrary: j m)
  case 0
  then show ?case by auto
next
  case (Suc k)
  from Suc.IH [where j = "Suc j" and m = "boot_msg crcf oob st (of_nat (6 * j)) m"] show ?case
    by (auto simp: Let_def)
qed

lemma boot_msg_data:
  assumes "length m = MSG_SIZE" and "unat i + 9 \<le> 256"
  shows "take 6 (drop 2 (boot_msg crcf oob st i m)) = map (np_read oob st) [3 + unat i..<9 + unat i]"
  using assms by (simp add: boot_msg_def set_crc_def write_at_eq Let_def ohc_consts)

lemma boot_msg_in_frame:
  "9 + unat i \<le> PACKET_SIZE \<Longrightarrow> boot_msg crcf oob' st i m = boot_msg crcf oob st i m"
  by (simp add: boot_msg_def map_np_read)

text \<open>The data bytes of the boot-page messages, in the order they are sent, are the
  frame bytes from \<open>3 + 6 * j\<close> on.\<close>

lemma np_read_range:
  assumes "b \<le> PACKET_SIZE" and "length (new_packet st) = PACKET_SIZE"
  shows "map (np_read oob st) [a..<b] = take (b - a) (drop a (new_packet st))"
  using assms by (intro nth_equalityI) (auto simp: np_read_def)

lemma boot_sends_data:
  assumes "length m = MSG_SIZE" and "j + k \<le> 22"
  shows "concat (map (\<lambda>x. take 6 (drop 2 x)) (boot_sends crcf oob st j k m)) =
           map (np_read oob st) [3 + 6 * j..<3 + 6 * (j + k)]"
  using assms
proof (induction k arbitrary: j m)
  case 0
  then show ?case by simp
next
  case (Suc k)
  let ?m1 = "boot_msg crcf oob st (of_nat (6 * j)) m"
  define i where "i = (of_nat (6 * j) :: byte)"
  have u: "unat i = 6 * j" unfolding i_def using Suc.prems(2) by (intro unat_of_nat_byte) simp
  have "take 6 (drop 2 (boot_msg crcf oob st i m)) = map (np_read oob st) [3 + 6 * j..<9 + 6 * j]"
    using Suc.prems boot_msg_data [of m i crcf oob st] u by simp
  then have "take 6 (drop 2 ?m1) = map (np_read oob st) [3 + 6 * j..<9 + 6 * j]"
    by (simp only: i_def)
  moreover have "concat (map (\<lambda>x. take 6 (drop 2 x)) (boot_sends crcf oob st (Suc j) k ?m1)) =
                   map (np_read oob st) [3 + 6 * Suc j..<3 + 6 * (Suc j + k)]"
    using Suc.prems by (intro Suc.IH) simp_all
  moreover have "[3 + 6 * j..<3 + 6 * (j + Suc k)] = [3 + 6 * j..<9 + 6 * j] @ [3 + 6 * Suc j..<3 + 6 * (Suc j + k)]"
    using upt_add_eq_append [of "3 + 6 * j" "9 + 6 * j" "6 * k"] by (simp add: algebra_simps)
  ultimately show ?case by (simp add: Let_def)
qed

text \<open>The first \<^verbatim>\<open>SPM_PAGESIZE\<close> data bytes of a whole boot-page loop are the page:
  the frame bytes after the page address.\<close>

lemma boot_sends_page:
  assumes "length m = MSG_SIZE" and "length (new_packet st) = PACKET_SIZE"
  shows "take SPM_PAGESIZE (concat (map (\<lambda>x. take 6 (drop 2 x)) (boot_sends crcf oob st 0 22 m))) =
           take SPM_PAGESIZE (drop 3 (new_packet st))"
proof -
  have "concat (map (\<lambda>x. take 6 (drop 2 x)) (boot_sends crcf oob st 0 22 m)) = map (np_read oob st) [3..<135]"
    using boot_sends_data [OF assms(1), of 0 22 crcf oob st] by simp
  moreover have "take 128 (map (np_read oob st) [3..<135]) = map (np_read oob st) [3..<131]"
    by (simp add: take_map)
  moreover have "map (np_read oob st) [3..<131] = take 128 (drop 3 (new_packet st))"
    using np_read_range [of 131 st oob 3] assms(2) by (simp add: ohc_consts del: upt.simps)
  ultimately show ?thesis by (simp add: ohc_consts)
qed

text \<open>The boot-page loop keeps the message type and the page address of every
  message it sends.\<close>

lemma boot_msg_keeps:
  assumes "length m = MSG_SIZE"
  shows "boot_msg crcf oob st i m ! 0 = m ! 0 \<and> boot_msg crcf oob st i m ! MSG_TYPE = m ! MSG_TYPE"
  using assms by (simp add: boot_msg_def set_crc_def write_at_eq nth_append Let_def ohc_consts)

lemma boot_sends_keeps:
  "length m = MSG_SIZE \<Longrightarrow> x \<in> set (boot_sends crcf oob st j k m) \<Longrightarrow>
   x ! 0 = m ! 0 \<and> x ! MSG_TYPE = m ! MSG_TYPE"
proof (induction k arbitrary: j m)
  case 0
  then show ?case by simp
next
  case (Suc k)
  let ?m1 = "boot_msg crcf oob st (of_nat (6 * j)) m"
  have "?m1 ! 0 = m ! 0 \<and> ?m1 ! MSG_TYPE = m ! MSG_TYPE" using Suc.prems(1) by (rule boot_msg_keeps)
  moreover have "x = ?m1 \<or> x \<in> set (boot_sends crcf oob st (Suc j) k ?m1)"
    using Suc.prems(2) by (simp add: Let_def)
  ultimately show ?case
    using Suc.IH [of ?m1 "Suc j"] Suc.prems(1) by auto
qed

subsection \<open>The GPS loop\<close>

lemma length_gps_fragment [simp]: "length (gps_fragment st j) = 7"
  by (simp add: gps_fragment_def)

lemma gps_fragment_id: "length m = MSG_SIZE \<Longrightarrow> write_at 0 (gps_fragment st j) m ! 0 = new_packet st ! (2 + 7 * j)"
  by (simp add: write_at_eq gps_fragment_def upt_conv_Cons ohc_consts)

lemma length_gps_sends: "length (gps_sends crcf st j k m) \<le> k"
  by (induction k arbitrary: j m) (simp_all add: Let_def)

lemma gps_loop_run:
  assumes "j + k = 18" and "pc m = Gps_loop" and "loop_i m = of_nat (2 + 7 * j)"
    and "length (msg m) = MSG_SIZE"
  shows "fst (main_run crcf oob (Suc (length (gps_sends crcf st j k (msg m)))) (st, m)) = st \<and>
         pc (snd (main_run crcf oob (Suc (length (gps_sends crcf st j k (msg m)))) (st, m))) = Gps_done \<and>
         trace (snd (main_run crcf oob (Suc (length (gps_sends crcf st j k (msg m)))) (st, m))) =
           trace m @ map Sent (gps_sends crcf st j k (msg m))"
  using assms
proof (induction k arbitrary: j m)
  case 0
  then have "unat (loop_i m) = 128" by simp
  with "0.prems" show ?case by (simp add: gps_loop_step_def ohc_consts)
next
  case (Suc k)
  have u: "unat (loop_i m) = 2 + 7 * j"
    unfolding Suc.prems(3) using Suc.prems(1) by (intro unat_of_nat_byte) simp
  let ?m1 = "write_at 0 (gps_fragment st j) (msg m)"
  have frag: "map (np_read oob st) [unat (loop_i m)..<unat (loop_i m) + 7] = gps_fragment st j"
    using u Suc.prems(1) by (simp add: map_np_read gps_fragment_def ohc_consts)
  show ?case
  proof (cases "?m1 ! 0 = 0")
    case True
    then show ?thesis
      using Suc.prems u frag by (simp add: gps_loop_step_def Let_def ohc_consts)
  next
    case False
    let ?s1 = "m\<lparr>msg := set_crc crcf ?m1, trace := trace m @ [Sent (set_crc crcf ?m1)],
                 loop_i := of_nat (2 + 7 * Suc j)\<rparr>"
    have i1: "loop_i m + 7 = of_nat (2 + 7 * Suc j)"
      using Suc.prems(3) by simp
    have step: "main_step crcf oob (st, m) = (st, ?s1)"
      using Suc.prems u frag False i1 by (simp add: gps_loop_step_def send_msg_def Let_def ohc_consts)
    have "fst (main_run crcf oob (Suc (length (gps_sends crcf st (Suc j) k (msg ?s1)))) (st, ?s1)) = st \<and>
          pc (snd (main_run crcf oob (Suc (length (gps_sends crcf st (Suc j) k (msg ?s1)))) (st, ?s1))) = Gps_done \<and>
          trace (snd (main_run crcf oob (Suc (length (gps_sends crcf st (Suc j) k (msg ?s1)))) (st, ?s1))) =
            trace ?s1 @ map Sent (gps_sends crcf st (Suc j) k (msg ?s1))"
      using Suc.prems by (intro Suc.IH) simp_all
    then show ?thesis
      using step False by (simp add: Let_def)
  qed
qed

lemma gps_sends_fragments:
  "length m = MSG_SIZE \<Longrightarrow>
   map (take 7) (gps_sends crcf st j k m) = takeWhile (\<lambda>f. f ! 0 \<noteq> 0) (map (gps_fragment st) [j..<j + k])"
proof (induction k arbitrary: j m)
  case 0
  then show ?case by simp
next
  case (Suc k)
  let ?m1 = "write_at 0 (gps_fragment st j) m"
  have len: "length (set_crc crcf ?m1) = MSG_SIZE" using Suc.prems by simp
  have id: "?m1 ! 0 = gps_fragment st j ! 0"
    using Suc.prems by (simp add: write_at_eq nth_append ohc_consts)
  have tk: "take 7 (set_crc crcf ?m1) = gps_fragment st j"
    using Suc.prems by (simp add: set_crc_def write_at_eq Let_def ohc_consts)
  have ups: "[j..<j + Suc k] = j # [Suc j..<Suc j + k]"
    by (simp add: upt_conv_Cons)
  show ?case
    unfolding ups using Suc.IH [OF len, of "Suc j"] id tk by (simp add: Let_def del: upt.simps)
qed

lemma gps_sends_type:
  "length m = MSG_SIZE \<Longrightarrow> x \<in> set (gps_sends crcf st j k m) \<Longrightarrow> x ! MSG_TYPE = m ! MSG_TYPE"
proof (induction k arbitrary: j m)
  case 0
  then show ?case by simp
next
  case (Suc k)
  let ?m1 = "set_crc crcf (write_at 0 (gps_fragment st j) m)"
  have "?m1 ! MSG_TYPE = m ! MSG_TYPE" and len: "length ?m1 = MSG_SIZE"
    using Suc.prems(1) by (simp_all add: set_crc_def write_at_eq nth_append Let_def ohc_consts)
  moreover have "x = ?m1 \<or> x \<in> set (gps_sends crcf st (Suc j) k ?m1)"
    using Suc.prems(2) by (auto simp: Let_def split: if_splits)
  ultimately show ?case
    using Suc.IH [OF len] by auto
qed

text \<open>The whole boot-page loop with no fresh frame: 22 iterations, then the exit.\<close>

lemma boot_page_run:
  assumes "pc m = Boot_loop" and "loop_i m = 0" and "\<not> has_new_packet st"
  shows "main_run crcf oob 23 (st, m) =
           (st, m\<lparr>pc := Boot_done, loop_i := 132,
                  msg := last (msg m # boot_sends crcf oob st 0 22 (msg m)),
                  trace := trace m @ map Sent (boot_sends crcf oob st 0 22 (msg m))\<rparr>)"
proof -
  have "main_run crcf oob 22 (st, m) =
          (st, m\<lparr>loop_i := of_nat (6 * (0 + 22)), msg := last (msg m # boot_sends crcf oob st 0 22 (msg m)),
                 trace := trace m @ map Sent (boot_sends crcf oob st 0 22 (msg m))\<rparr>)"
    using assms by (intro boot_loop_iter) simp_all
  then show ?thesis
    using assms main_run_add [of crcf oob 22 1 "(st, m)"]
    by (simp add: boot_loop_step_def ohc_consts)
qed

lemma byte_half_of_nat:
  assumes "6 * j < 256"
  shows "(of_nat (6 * j) :: byte) div 2 = of_nat (3 * j)"
proof -
  have "unat (of_nat (6 * j) :: byte) = 6 * j"
    using assms by (rule unat_of_nat_byte)
  then have "unat ((of_nat (6 * j) :: byte) div 2) = 3 * j"
    by (simp only: unat_div) simp
  also have "\<dots> = unat (of_nat (3 * j) :: byte)"
    using assms by (intro unat_of_nat_byte [symmetric]) simp
  finally show ?thesis by (simp only: word_unat_eq_iff)
qed

lemma boot_msg_offset:
  assumes "length m = MSG_SIZE" and "6 * j < 256"
  shows "boot_msg crcf oob st (of_nat (6 * j)) m ! 1 = of_nat (3 * j)"
proof -
  have "boot_msg crcf oob st (of_nat (6 * j)) m ! 1 = (of_nat (6 * j) :: byte) div 2"
    using assms(1) by (simp add: boot_msg_def set_crc_def write_at_eq nth_append Let_def ohc_consts)
  then show ?thesis using byte_half_of_nat [OF assms(2)] by simp
qed

lemma boot_sends_offsets:
  "length m = MSG_SIZE \<Longrightarrow> j + k \<le> 22 \<Longrightarrow>
   map (\<lambda>x. x ! 1) (boot_sends crcf oob st j k m) = map (\<lambda>n. of_nat (3 * n)) [j..<j + k]"
proof (induction k arbitrary: j m)
  case 0
  then show ?case by simp
next
  case (Suc k)
  have ups: "[j..<j + Suc k] = j # [Suc j..<Suc j + k]"
    by (simp add: upt_conv_Cons)
  have "boot_msg crcf oob st (of_nat (6 * j)) m ! 1 = of_nat (3 * j)"
    using Suc.prems by (intro boot_msg_offset) simp_all
  then show ?case
    unfolding ups using Suc.IH [of "boot_msg crcf oob st (of_nat (6 * j)) m" "Suc j"] Suc.prems
    by (simp add: Let_def del: upt.simps)
qed

lemma relay_repeat:
  assumes "pc m = Fwd_test" and "\<not> has_new_packet st"
  shows "main_run crcf oob (2 * n) (st, m) =
           (st, m\<lparr>trace := trace m @ concat (replicate n [Sent (msg m), Green True, Green False])\<rparr>)"
  using assms
proof (induction n arbitrary: m)
  case 0
  then show ?case by simp
next
  case (Suc n)
  let ?m1 = "m\<lparr>trace := trace m @ [Sent (msg m), Green True, Green False]\<rparr>"
  have "main_run crcf oob 2 (st, m) = (st, ?m1)"
    using Suc.prems
    by (simp add: numeral_2_eq_2 fwd_test_step_def fwd_send_step_def send_msg_def green_pulse_def)
  moreover have "main_run crcf oob (2 * n) (st, ?m1) =
          (st, ?m1\<lparr>trace := trace ?m1 @ concat (replicate n [Sent (msg ?m1), Green True, Green False])\<rparr>)"
    using Suc.prems by (intro Suc.IH) simp_all
  ultimately show ?case
    using main_run_add [of crcf oob 2 "2 * n" "(st, m)"] by (simp add: replicate_app_Cons_same)
qed

subsection \<open>The message copy loops\<close>

lemma copy_payload:
  assumes "k + 2 \<le> length np" and "k \<le> length m"
  shows "write_at 0 (map (\<lambda>x. np ! (x + 2)) [0..<k]) m = take k (drop 2 np) @ drop k m"
proof -
  have "map (\<lambda>x. np ! (x + 2)) [0..<k] = take k (drop 2 np)"
    using assms(1) by (intro nth_equalityI) (simp_all add: add.commute)
  then show ?thesis using assms by (simp add: write_at_eq)
qed

lemma fwd_copy_iter:
  assumes "j + k \<le> MSG_SIZE - MSG_CRC_SIZE" and "pc m = Fwd_copy" and "loop_i m = of_nat j"
  shows "main_run crcf oob k (st, m) =
           (st, m\<lparr>loop_i := of_nat (j + k),
                  msg := write_at j (map (\<lambda>x. new_packet st ! (x + 2)) [j..<j + k]) (msg m)\<rparr>)"
  using assms
proof (induction k arbitrary: j m)
  case 0
  then show ?case by simp
next
  case (Suc k)
  have u: "unat (loop_i m) = j"
    unfolding Suc.prems(3) using Suc.prems(1) by (intro unat_of_nat_byte) (simp add: ohc_consts)
  let ?m1 = "m\<lparr>msg := (msg m)[j := new_packet st ! (j + 2)], loop_i := of_nat (Suc j)\<rparr>"
  have "main_step crcf oob (st, m) = (st, ?m1)"
    using Suc.prems u by (simp add: fwd_copy_step_def Let_def np_read_lt ohc_consts)
  moreover have "[j..<j + Suc k] = j # [Suc j..<Suc j + k]"
    by (simp add: upt_conv_Cons)
  ultimately show ?case
    using Suc.IH [of "Suc j" ?m1] Suc.prems by (simp del: upt.simps)
qed

lemma raw_copy_iter:
  assumes "j + k \<le> MSG_SIZE" and "pc m = Raw_copy" and "loop_i m = of_nat j"
  shows "main_run crcf oob k (st, m) =
           (st, m\<lparr>loop_i := of_nat (j + k),
                  msg := write_at j (map (\<lambda>x. new_packet st ! (x + 2)) [j..<j + k]) (msg m)\<rparr>)"
  using assms
proof (induction k arbitrary: j m)
  case 0
  then show ?case by simp
next
  case (Suc k)
  have u: "unat (loop_i m) = j"
    unfolding Suc.prems(3) using Suc.prems(1) by (intro unat_of_nat_byte) (simp add: ohc_consts)
  let ?m1 = "m\<lparr>msg := (msg m)[j := new_packet st ! (j + 2)], loop_i := of_nat (Suc j)\<rparr>"
  have "main_step crcf oob (st, m) = (st, ?m1)"
    using Suc.prems u by (simp add: raw_copy_step_def Let_def np_read_lt ohc_consts)
  moreover have "[j..<j + Suc k] = j # [Suc j..<Suc j + k]"
    by (simp add: upt_conv_Cons)
  ultimately show ?case
    using Suc.IH [of "Suc j" ?m1] Suc.prems by (simp del: upt.simps)
qed

text \<open>The FORWARDMSG copy loop and checksum (lines 88--90) from \<open>i = 0\<close>, and the
  FORWARDRAWMSG copy loop (lines 100--101).\<close>

lemma fwd_copy_run:
  assumes "pc m = Fwd_copy" and "loop_i m = 0" and "length (msg m) = MSG_SIZE"
    and "length (new_packet st) = PACKET_SIZE"
  shows "main_run crcf oob 12 (st, m) =
           (st, m\<lparr>pc := Fwd_test, loop_i := 10,
                  msg := set_crc crcf (take 10 (drop 2 (new_packet st)) @ drop 10 (msg m))\<rparr>)"
proof -
  have "main_run crcf oob 10 (st, m) =
          (st, m\<lparr>loop_i := of_nat (0 + 10),
                 msg := write_at 0 (map (\<lambda>x. new_packet st ! (x + 2)) [0..<0 + 10]) (msg m)\<rparr>)"
    using assms by (intro fwd_copy_iter) (simp_all add: ohc_consts)
  moreover have "write_at 0 (map (\<lambda>x. new_packet st ! (x + 2)) [0..<10]) (msg m) =
                   take 10 (drop 2 (new_packet st)) @ drop 10 (msg m)"
    using assms(3,4) by (intro copy_payload) (simp_all add: ohc_consts)
  moreover have "unat (10::byte) = 10" by simp
  ultimately show ?thesis
    using assms(1) main_run_add [of crcf oob 10 2 "(st, m)"]
    by (simp add: numeral_2_eq_2 fwd_copy_step_def fwd_crc_step_def ohc_consts del: upt.simps)
qed

text \<open>A FORWARDMSG frame taken at line 75: after 17 steps its message has been built
  and sent once, and the relay loop is at its flag test.\<close>

lemma forward_run:
  assumes "pc m = Poll" and "has_new_packet st" and "packet_type st = PACKET_FORWARDMSG"
    and "length (msg m) = MSG_SIZE" and "length (new_packet st) = PACKET_SIZE"
  shows "main_run crcf oob 17 (st, m) =
           (let x = set_crc crcf (take 10 (drop 2 (new_packet st)) @ drop 10 (msg m))
            in (st\<lparr>has_new_packet := False\<rparr>,
                m\<lparr>pc := Fwd_test, loop_i := 10, msg := x, trace := trace m @ [Sent x, Green True, Green False]\<rparr>))"
proof -
  let ?st0 = "st\<lparr>has_new_packet := False\<rparr>"
  let ?m3 = "m\<lparr>pc := Fwd_copy, loop_i := 0\<rparr>"
  let ?x = "set_crc crcf (take 10 (drop 2 (new_packet st)) @ drop 10 (msg m))"
  have r3: "main_run crcf oob 3 (st, m) = (?st0, ?m3)"
    using dispatch_run [OF assms(1,2), of crcf oob] assms(3) by (simp add: switch_step_def Let_def ohc_consts)
  have r12: "main_run crcf oob 12 (?st0, ?m3) = (?st0, ?m3\<lparr>pc := Fwd_test, loop_i := 10, msg := ?x\<rparr>)"
    using assms(4,5) fwd_copy_run [of ?m3 ?st0 crcf oob] by simp
  have r2: "main_run crcf oob 2 (?st0, ?m3\<lparr>pc := Fwd_test, loop_i := 10, msg := ?x\<rparr>) =
      (?st0, ?m3\<lparr>pc := Fwd_test, loop_i := 10, msg := ?x, trace := trace m @ [Sent ?x, Green True, Green False]\<rparr>)"
    by (simp add: numeral_2_eq_2 fwd_test_step_def fwd_send_step_def send_msg_def green_pulse_def)
  show ?thesis
    using r3 r12 r2 main_run_add [of crcf oob 3 12 "(st, m)"] main_run_add [of crcf oob 15 2 "(st, m)"]
    by (simp add: Let_def)
qed

lemma raw_copy_run:
  assumes "pc m = Raw_copy" and "loop_i m = 0" and "length (msg m) = MSG_SIZE"
    and "length (new_packet st) = PACKET_SIZE"
  shows "main_run crcf oob 13 (st, m) =
           (st, m\<lparr>pc := Raw_test, loop_i := 12, msg := take 12 (drop 2 (new_packet st))\<rparr>)"
proof -
  have "main_run crcf oob 12 (st, m) =
          (st, m\<lparr>loop_i := of_nat (0 + 12),
                 msg := write_at 0 (map (\<lambda>x. new_packet st ! (x + 2)) [0..<0 + 12]) (msg m)\<rparr>)"
    using assms by (intro raw_copy_iter) (simp_all add: ohc_consts)
  moreover have "write_at 0 (map (\<lambda>x. new_packet st ! (x + 2)) [0..<12]) (msg m) =
                   take 12 (drop 2 (new_packet st)) @ drop 12 (msg m)"
    using assms(3,4) by (intro copy_payload) (simp_all add: ohc_consts)
  moreover have "unat (12::byte) = 12" by simp
  ultimately show ?thesis
    using assms(1,3) main_run_add [of crcf oob 12 1 "(st, m)"]
    by (simp add: raw_copy_step_def ohc_consts del: upt.simps)
qed

subsection \<open>Properties of the dispatcher\<close>

text \<open>C9: the boot-page loop is bounded. Entered with \<open>i = 0\<close> and no fresh frame,
  it sends exactly \<open>\<lceil>SPM_PAGESIZE / 6\<rceil> = 22\<close> messages, with page offsets
  \<open>0, 3, \<dots>, 63\<close>, and leaves after 23 steps with its 8-bit counter at 132 (it never
  wraps), the frame store untouched.\<close>

theorem boot_page_loop_bound:
  assumes "pc m = Boot_loop" and "loop_i m = 0" and "\<not> has_new_packet st"
    and "length (msg m) = MSG_SIZE"
  shows "fst (main_run crcf oob 23 (st, m)) = st \<and>
         pc (snd (main_run crcf oob 23 (st, m))) = Boot_done \<and>
         unat (loop_i (snd (main_run crcf oob 23 (st, m)))) = 132 \<and>
         trace (snd (main_run crcf oob 23 (st, m))) =
           trace m @ map Sent (boot_sends crcf oob st 0 22 (msg m)) \<and>
         length (boot_sends crcf oob st 0 22 (msg m)) = (SPM_PAGESIZE + 5) div 6 \<and>
         map (\<lambda>x. x ! 1) (boot_sends crcf oob st 0 22 (msg m)) = map (\<lambda>n. of_nat (3 * n)) [0..<22]"
  using boot_page_run [OF assms(1-3), of crcf oob] boot_sends_offsets [OF assms(4), of 0 22 crcf oob st]
  by (simp add: ohc_consts)

theorem boot_page_loop_bound_witness:
  "fst (main_run (\<lambda>_. 0) (\<lambda>_. 0) 23 (frame_store_init, main_init\<lparr>pc := Boot_loop, loop_i := 0\<rparr>)) =
     frame_store_init \<and>
   pc (snd (main_run (\<lambda>_. 0) (\<lambda>_. 0) 23 (frame_store_init, main_init\<lparr>pc := Boot_loop, loop_i := 0\<rparr>))) =
     Boot_done"
  using boot_page_loop_bound [of "main_init\<lparr>pc := Boot_loop, loop_i := 0\<rparr>" frame_store_init "\<lambda>_. 0" "\<lambda>_. 0"]
  by (simp add: main_init_def frame_store_init_def ohc_consts)

text \<open>C10: the boot-page loop reads past the end of \<^verbatim>\<open>new_packet\<close>. Its last
  message (counter 126) copies bytes 129--134 of the frame: two page-data bytes, the
  frame's closing checksum byte, and three bytes of whatever memory follows the
  132-byte array.\<close>

theorem boot_page_overread:
  assumes "pc m = Boot_loop" and "loop_i m = 0" and "\<not> has_new_packet st"
    and "length (msg m) = MSG_SIZE"
  shows "\<exists>x. last (trace (snd (main_run crcf oob 23 (st, m)))) = Sent x \<and>
             take 6 (drop 2 x) =
               [new_packet st ! 129, new_packet st ! 130, new_packet st ! 131, oob 0, oob 1, oob 2]"
proof -
  obtain m' where m': "length m' = length (msg m)"
    and last: "last (boot_sends crcf oob st 0 (Suc 21) (msg m)) = boot_msg crcf oob st (of_nat (6 * (0 + 21))) m'"
    using last_boot_sends by blast
  have "take 6 (drop 2 (boot_msg crcf oob st (of_nat 126) m')) = map (np_read oob st) [3 + 126..<9 + 126]"
    using m' assms(4) boot_msg_data [of m' "of_nat 126"] by simp
  also have "\<dots> = [new_packet st ! 129, new_packet st ! 130, new_packet st ! 131, oob 0, oob 1, oob 2]"
    by (simp add: np_read_def upt_rec ohc_consts)
  moreover have "boot_sends crcf oob st 0 22 (msg m) \<noteq> []"
    using length_boot_sends [of crcf oob st 0 22 "msg m"] by (metis list.size(3) zero_neq_numeral)
  ultimately show ?thesis
    using boot_page_run [OF assms(1-3), of crcf oob] last by (simp add: last_map)
qed

theorem boot_page_overread_witness:
  "\<exists>x. last (trace (snd (main_run (\<lambda>_. 0) (\<lambda>k. 0xEE) 23
            (frame_store_init, main_init\<lparr>pc := Boot_loop, loop_i := 0\<rparr>)))) = Sent x \<and>
       take 6 (drop 2 x) = [0, 0, 0, 0xEE, 0xEE, 0xEE]"
  using boot_page_overread [of "main_init\<lparr>pc := Boot_loop, loop_i := 0\<rparr>" frame_store_init "\<lambda>_. 0" "\<lambda>k. 0xEE"]
  by (simp add: main_init_def frame_store_init_def ohc_consts)

text \<open>C11: the GPS loop stops at the first fragment whose \<open>id\<close> is zero, or after
  the 18 fragments that fit below \<^verbatim>\<open>PACKET_SIZE - 7\<close>, whichever comes first: it
  sends one message per fragment before that point, carrying the fragment, and returns
  after one more step.\<close>

theorem gps_relay_stops:
  assumes "pc m = Gps_loop" and "loop_i m = 2" and "length (msg m) = MSG_SIZE"
  shows "fst (main_run crcf oob (Suc (length (gps_sends crcf st 0 18 (msg m)))) (st, m)) = st \<and>
         pc (snd (main_run crcf oob (Suc (length (gps_sends crcf st 0 18 (msg m)))) (st, m))) = Gps_done \<and>
         trace (snd (main_run crcf oob (Suc (length (gps_sends crcf st 0 18 (msg m)))) (st, m))) =
           trace m @ map Sent (gps_sends crcf st 0 18 (msg m)) \<and>
         map (take 7) (gps_sends crcf st 0 18 (msg m)) =
           takeWhile (\<lambda>f. f ! 0 \<noteq> 0) (map (gps_fragment st) [0..<18]) \<and>
         length (gps_sends crcf st 0 18 (msg m)) \<le> 18"
  using gps_loop_run [where j = 0 and k = 18 and m = m and crcf = crcf and st = st and oob = oob] assms gps_sends_fragments [OF assms(3), of crcf st 0 18]
    length_gps_sends [of crcf st 0 18 "msg m"]
  by simp

theorem gps_relay_stops_witness:
  "pc (snd (main_run (\<lambda>_. 0) (\<lambda>_. 0)
      (Suc (length (gps_sends (\<lambda>_. 0) frame_store_init 0 18 (msg (main_init\<lparr>pc := Gps_loop, loop_i := 2\<rparr>)))))
      (frame_store_init, main_init\<lparr>pc := Gps_loop, loop_i := 2\<rparr>))) = Gps_done \<and>
   map (take 7) (gps_sends (\<lambda>_. 0) frame_store_init 0 18 (msg (main_init\<lparr>pc := Gps_loop, loop_i := 2\<rparr>))) = []"
proof -
  have h1: "pc (main_init\<lparr>pc := Gps_loop, loop_i := 2\<rparr>) = Gps_loop" by simp
  have h2: "loop_i (main_init\<lparr>pc := Gps_loop, loop_i := 2\<rparr>) = 2" by simp
  have h3: "length (msg (main_init\<lparr>pc := Gps_loop, loop_i := 2\<rparr>)) = MSG_SIZE"
    by (simp add: main_init_def)
  have tw: "takeWhile (\<lambda>f. f ! 0 \<noteq> 0) (map (gps_fragment frame_store_init) [0..<18]) = []"
    by (simp add: gps_fragment_def frame_store_init_def upt_conv_Cons ohc_consts)
  show ?thesis
    using gps_relay_stops [OF h1 h2 h3, where crcf = "\<lambda>_. 0" and oob = "\<lambda>_. 0" and st = frame_store_init] tw
    by (simp only:)
qed

text \<open>C12: unlike the boot-page loop, the GPS loop never looks at
  \<^verbatim>\<open>has_new_packet\<close>: with a fresh frame already flagged, it still sends the first
  fragment of whatever frame is in the store.\<close>

theorem gps_ignores_fresh_frame:
  assumes "pc m = Gps_loop" and "loop_i m = 2" and "length (msg m) = MSG_SIZE"
    and "has_new_packet st" and "new_packet st ! 2 \<noteq> 0"
  shows "\<exists>x. snd (main_step crcf oob (st, m)) = m\<lparr>msg := x, trace := trace m @ [Sent x], loop_i := 9\<rparr> \<and>
             take 7 x = gps_fragment st 0"
proof -
  let ?m1 = "write_at 0 (gps_fragment st 0) (msg m)"
  have frag: "map (np_read oob st) [unat (loop_i m)..<unat (loop_i m) + 7] = gps_fragment st 0"
    using assms(2) by (simp add: np_read_lt gps_fragment_def ohc_consts)
  have id: "?m1 ! 0 \<noteq> 0"
    using gps_fragment_id [OF assms(3), of st 0] assms(5) by simp
  have "snd (main_step crcf oob (st, m)) =
          m\<lparr>msg := set_crc crcf ?m1, trace := trace m @ [Sent (set_crc crcf ?m1)], loop_i := 9\<rparr>"
    using assms(1,2) frag id by (simp add: gps_loop_step_def send_msg_def Let_def ohc_consts)
  moreover have "take 7 (set_crc crcf ?m1) = gps_fragment st 0"
    using assms(3) by (simp add: set_crc_def write_at_eq Let_def ohc_consts)
  ultimately show ?thesis by blast
qed

theorem gps_ignores_fresh_frame_witness:
  "\<exists>x. snd (main_step (\<lambda>_. 0) (\<lambda>_. 0)
          (store_publish (mk_frame 5 (replicate 129 1)) frame_store_init, main_init\<lparr>pc := Gps_loop, loop_i := 2\<rparr>)) =
        main_init\<lparr>pc := Gps_loop, loop_i := 2\<rparr>\<lparr>msg := x, trace := trace main_init @ [Sent x], loop_i := 9\<rparr> \<and>
       take 7 x = gps_fragment (store_publish (mk_frame 5 (replicate 129 1)) frame_store_init) 0"
  using gps_ignores_fresh_frame [of "main_init\<lparr>pc := Gps_loop, loop_i := 2\<rparr>"
      "store_publish (mk_frame 5 (replicate 129 1)) frame_store_init" "\<lambda>_. 0" "\<lambda>_. 0"]
  by (simp add: main_init_def store_publish_def mk_frame_def nth_append ohc_consts)

text \<open>C13: the message relay loops (\<^verbatim>\<open>PACKET_FORWARDMSG\<close> and
  \<^verbatim>\<open>PACKET_FORWARDRAWMSG\<close>) test the flag without consuming it at the top of every
  iteration: with a fresh frame flagged they leave for the flag test of line 75 in one
  step, sending nothing and leaving the flag raised.\<close>

theorem relay_loop_cancel:
  assumes "pc m = Fwd_test \<or> pc m = Raw_test" and "has_new_packet st"
  shows "main_step crcf oob (st, m) = (st, m\<lparr>pc := Poll\<rparr>)"
  using assms by (auto simp: fwd_test_step_def raw_test_step_def)

theorem relay_loop_cancel_witness:
  "main_step (\<lambda>_. 0) (\<lambda>_. 0) (store_publish (mk_frame 2 (replicate 129 0)) frame_store_init, main_init\<lparr>pc := Fwd_test\<rparr>) =
     (store_publish (mk_frame 2 (replicate 129 0)) frame_store_init, main_init\<lparr>pc := Poll\<rparr>)"
  using relay_loop_cancel [where m = "main_init\<lparr>pc := Fwd_test\<rparr>" and
      st = "store_publish (mk_frame 2 (replicate 129 0)) frame_store_init" and crcf = "\<lambda>_. 0" and oob = "\<lambda>_. 0"]
  by (simp add: store_publish_def)

text \<open>C14: without a fresh frame the relay loop repeats forever: every two steps it
  sends the same message once and pulses the green LED, nothing else changes.\<close>

theorem relay_loop_repeats:
  assumes "pc m = Fwd_test" and "\<not> has_new_packet st"
  shows "fst (main_run crcf oob (2 * n) (st, m)) = st \<and>
         snd (main_run crcf oob (2 * n) (st, m)) =
           m\<lparr>trace := trace m @ concat (replicate n [Sent (msg m), Green True, Green False])\<rparr>"
  using relay_repeat [OF assms] by simp

theorem relay_loop_repeats_witness:
  "trace (snd (main_run (\<lambda>_. 0) (\<lambda>_. 0) (2 * 2) (frame_store_init, main_init\<lparr>pc := Fwd_test\<rparr>))) =
     [Sent (msg main_init), Green True, Green False, Sent (msg main_init), Green True, Green False]"
  using relay_loop_repeats [where m = "main_init\<lparr>pc := Fwd_test\<rparr>" and st = frame_store_init
      and crcf = "\<lambda>_. 0" and oob = "\<lambda>_. 0" and n = 2]
  by (simp add: frame_store_init_def main_init_def numeral_2_eq_2)

text \<open>C15: \<^verbatim>\<open>PACKET_LEDTOGGLE\<close> flips \<^verbatim>\<open>leds_toggle\<close> and drives the blue LED to
  match; dispatched twice, it returns the LED to its state before, and it touches
  neither the message nor the transport.\<close>

theorem toggle_twice:
  assumes "packet_type st = PACKET_LEDTOGGLE" and "blue_on m = leds_toggle m"
  shows "blue_on (switch_step st m) = (\<not> blue_on m) \<and>
         blue_on (switch_step st ((switch_step st m)\<lparr>pc := Switch\<rparr>)) = blue_on m \<and>
         leds_toggle (switch_step st ((switch_step st m)\<lparr>pc := Switch\<rparr>)) = leds_toggle m \<and>
         msg (switch_step st ((switch_step st m)\<lparr>pc := Switch\<rparr>)) = msg m \<and>
         trace (switch_step st ((switch_step st m)\<lparr>pc := Switch\<rparr>)) =
           trace m @ [Blue (\<not> blue_on m), Blue (blue_on m)]"
  using assms by (simp add: switch_step_def led_toggle_def Let_def ohc_consts)

theorem toggle_twice_witness:
  "blue_on (switch_step (frame_store_init\<lparr>packet_type := 1\<rparr>)
     ((switch_step (frame_store_init\<lparr>packet_type := 1\<rparr>) main_init)\<lparr>pc := Switch\<rparr>)) = blue_on main_init"
  using toggle_twice [where st = "frame_store_init\<lparr>packet_type := 1\<rparr>" and m = main_init]
  by (simp add: main_init_def ohc_consts)

text \<open>C16: a frame of type \<^verbatim>\<open>PACKET_STOP\<close>, or of a type the switch does not list,
  is consumed without effect: the switch only returns to the flag test.\<close>

theorem noop_no_effect:
  assumes "pc m = Switch" and "packet_type st = PACKET_STOP \<or> PACKET_GPSFRAME < packet_type st"
  shows "main_step crcf oob (st, m) = (st, m\<lparr>pc := Poll\<rparr>)"
  using assms by (auto simp: switch_step_def Let_def ohc_consts)

theorem noop_no_effect_witness:
  "main_step (\<lambda>_. 0) (\<lambda>_. 0) (frame_store_init, main_init\<lparr>pc := Switch\<rparr>) = (frame_store_init, main_init\<lparr>pc := Poll\<rparr>)"
  using noop_no_effect [where m = "main_init\<lparr>pc := Switch\<rparr>" and st = frame_store_init and crcf = "\<lambda>_. 0"
      and oob = "\<lambda>_. 0"]
  by (simp add: frame_store_init_def ohc_consts)

text \<open>C17: the main loop's two steps at lines 75--76 are the store's consumer
  operation: with the flag raised they do what \<open>store_take\<close> does and reach the
  switch; with the flag down the loop spins without changing anything.\<close>

theorem poll_consumes:
  assumes "pc m = Poll"
  shows "main_run crcf oob 2 (st, m) =
           (case store_take st of Some (t, st') \<Rightarrow> (st', m\<lparr>pc := Switch\<rparr>) | None \<Rightarrow> (st, m))"
  using assms
  by (simp add: numeral_2_eq_2 store_take_def poll_step_def clear_step_def)

theorem poll_consumes_witness:
  "main_run (\<lambda>_. 0) (\<lambda>_. 0) 2 (frame_store_init\<lparr>has_new_packet := True\<rparr>, main_init) =
     (frame_store_init, main_init\<lparr>pc := Switch\<rparr>)"
  using poll_consumes [where m = main_init and st = "frame_store_init\<lparr>has_new_packet := True\<rparr>"
      and crcf = "\<lambda>_. 0" and oob = "\<lambda>_. 0"]
  by (simp add: main_init_def store_take_def frame_store_init_def)

text \<open>C22: the \<^verbatim>\<open>PACKET_FORWARDMSG\<close> case (lines 87--97). Dispatched with no
  fresher frame, it copies the first \<^verbatim>\<open>sizeof(message_t) - sizeof(msg.crc)\<close> = 10
  payload bytes into the message, sets its checksum with \<^verbatim>\<open>message_crc\<close>, and after
  15 steps has sent that message once with a green pulse and is back at the loop's flag
  test.\<close>

theorem forward_msg_case:
  assumes "pc m = Switch" and "packet_type st = PACKET_FORWARDMSG" and "\<not> has_new_packet st"
    and "length (msg m) = MSG_SIZE" and "length (new_packet st) = PACKET_SIZE"
  shows "main_run crcf oob 15 (st, m) =
           (let x = set_crc crcf (take 10 (drop 2 (new_packet st)) @ drop 10 (msg m))
            in (st, m\<lparr>pc := Fwd_test, loop_i := 10, msg := x,
                       trace := trace m @ [Sent x, Green True, Green False]\<rparr>))"
proof -
  let ?m1 = "m\<lparr>loop_i := 0, pc := Fwd_copy\<rparr>"
  have "main_run crcf oob 1 (st, m) = (st, ?m1)"
    using assms(1,2) by (simp add: switch_step_def Let_def ohc_consts)
  moreover have "main_run crcf oob 12 (st, ?m1) =
          (st, ?m1\<lparr>pc := Fwd_test, loop_i := 10,
                  msg := set_crc crcf (take 10 (drop 2 (new_packet st)) @ drop 10 (msg ?m1))\<rparr>)"
    using assms(4,5) by (intro fwd_copy_run) simp_all
  ultimately show ?thesis
    using assms(3) main_run_add [of crcf oob 1 12 "(st, m)"] main_run_add [of crcf oob 13 2 "(st, m)"]
    by (simp add: numeral_2_eq_2 fwd_test_step_def fwd_send_step_def send_msg_def green_pulse_def Let_def)
qed

theorem forward_msg_case_witness:
  "main_run (\<lambda>_. 0) (\<lambda>_. 0) 15 (frame_store_init\<lparr>packet_type := 2\<rparr>, main_init\<lparr>pc := Switch\<rparr>) =
     (frame_store_init\<lparr>packet_type := 2\<rparr>,
      main_init\<lparr>pc := Fwd_test, loop_i := 10, msg := set_crc (\<lambda>_. 0) (replicate 12 0),
                trace := [Sent (set_crc (\<lambda>_. 0) (replicate 12 0)), Green True, Green False]\<rparr>)"
  using forward_msg_case [where m = "main_init\<lparr>pc := Switch\<rparr>" and st = "frame_store_init\<lparr>packet_type := 2\<rparr>"
      and crcf = "\<lambda>_. 0" and oob = "\<lambda>_. 0"]
  by (simp add: main_init_def frame_store_init_def Let_def replicate_add [symmetric] ohc_consts)

text \<open>C23: the \<^verbatim>\<open>PACKET_FORWARDRAWMSG\<close> case (lines 99--108). Dispatched with no
  fresher frame, it copies all 12 message bytes, checksum field included, verbatim from
  the payload and computes no checksum; after 16 steps it has sent that message once
  with a green pulse and is back at the loop's flag test.\<close>

theorem raw_msg_case:
  assumes "pc m = Switch" and "packet_type st = PACKET_FORWARDRAWMSG" and "\<not> has_new_packet st"
    and "length (msg m) = MSG_SIZE" and "length (new_packet st) = PACKET_SIZE"
  shows "main_run crcf oob 16 (st, m) =
           (let x = take 12 (drop 2 (new_packet st))
            in (st, m\<lparr>pc := Raw_test, loop_i := 12, msg := x,
                       trace := trace m @ [Sent x, Green True, Green False]\<rparr>))"
proof -
  let ?m1 = "m\<lparr>loop_i := 0, pc := Raw_copy\<rparr>"
  have "main_run crcf oob 1 (st, m) = (st, ?m1)"
    using assms(1,2) by (simp add: switch_step_def Let_def ohc_consts)
  moreover have "main_run crcf oob 13 (st, ?m1) =
          (st, ?m1\<lparr>pc := Raw_test, loop_i := 12, msg := take 12 (drop 2 (new_packet st))\<rparr>)"
    using assms(4,5) by (intro raw_copy_run) simp_all
  ultimately show ?thesis
    using assms(3) main_run_add [of crcf oob 1 13 "(st, m)"] main_run_add [of crcf oob 14 2 "(st, m)"]
    by (simp add: numeral_2_eq_2 raw_test_step_def raw_send_step_def send_msg_def green_pulse_def Let_def)
qed

theorem raw_msg_case_witness:
  "main_run (\<lambda>_. 0) (\<lambda>_. 0) 16 (frame_store_init\<lparr>packet_type := 3\<rparr>, main_init\<lparr>pc := Switch\<rparr>) =
     (frame_store_init\<lparr>packet_type := 3\<rparr>,
      main_init\<lparr>pc := Raw_test, loop_i := 12, msg := replicate 12 0,
                trace := [Sent (replicate 12 0), Green True, Green False]\<rparr>)"
  using raw_msg_case [where m = "main_init\<lparr>pc := Switch\<rparr>" and st = "frame_store_init\<lparr>packet_type := 3\<rparr>"
      and crcf = "\<lambda>_. 0" and oob = "\<lambda>_. 0"]
  by (simp add: main_init_def frame_store_init_def Let_def ohc_consts)

text \<open>C31: round trip of the boot page. The 22 messages of the boot-page loop, read in
  the order they are sent, carry the page: the first \<^verbatim>\<open>SPM_PAGESIZE\<close> = 128 of their
  data bytes are exactly the frame's bytes 3--130 (the payload after the page address),
  so a receiver that concatenates the data fields reassembles the page; they carry 132
  data bytes in all.\<close>

theorem boot_page_roundtrip:
  assumes "pc m = Boot_loop" and "loop_i m = 0" and "\<not> has_new_packet st"
    and "length (msg m) = MSG_SIZE" and "length (new_packet st) = PACKET_SIZE"
  shows "let xs = boot_sends crcf oob st 0 22 (msg m)
         in trace (snd (main_run crcf oob 23 (st, m))) = trace m @ map Sent xs \<and>
            take SPM_PAGESIZE (concat (map (\<lambda>x. take 6 (drop 2 x)) xs)) =
              take SPM_PAGESIZE (drop 3 (new_packet st)) \<and>
            length (concat (map (\<lambda>x. take 6 (drop 2 x)) xs)) = 132"
  using boot_page_run [OF assms(1-3), of crcf oob] boot_sends_page [OF assms(4,5), of crcf oob]
    boot_sends_data [OF assms(4), of 0 22 crcf oob st]
  by (simp add: Let_def)

theorem boot_page_roundtrip_witness:
  "take SPM_PAGESIZE (concat (map (\<lambda>x. take 6 (drop 2 x))
       (boot_sends (\<lambda>_. 0) (\<lambda>_. 0) frame_store_init 0 22 (msg (main_init\<lparr>pc := Boot_loop, loop_i := 0\<rparr>))))) =
     take SPM_PAGESIZE (drop 3 (new_packet frame_store_init))"
  using boot_page_roundtrip [of "main_init\<lparr>pc := Boot_loop, loop_i := 0\<rparr>" frame_store_init "\<lambda>_. 0" "\<lambda>_. 0"]
  by (simp add: main_init_def frame_store_init_def Let_def ohc_consts)

end
