(* ===== verification/System.thy ===== *)
theory System
  imports Dispatcher
begin

text \<open>
  The whole program: the receive interrupt and the main loop sharing the frame store.
  \<open>ohc_state\<close> gathers the globals of \<^verbatim>\<open>src/ohc.c\<close> by owner. An interrupt step
  \<open>isr_event\<close> runs \<^verbatim>\<open>ISR(USART_RX_vect)\<close> to completion and is possible only
  while the \<^verbatim>\<open>SREG\<close> I-bit is set; a main step \<open>main_event\<close> is one statement of
  the main loop. \<open>ohc_step\<close> is their interleaving, \<open>ohc_reachable\<close> the states
  reachable from power-on (the entry of \<^verbatim>\<open>main()\<close>). A schedule (\<open>sched_event list\<close>) fixes one
  interleaving; \<open>ohc_exec\<close> runs it and returns \<open>None\<close> when it delivers a byte while
  interrupts are disabled (on the device the UART holds such a byte until \<^verbatim>\<open>sei\<close>
  or drops it: either way it is delivered later or never, which another schedule
  describes). \<open>ohc_inv\<close> is the invariant of the whole program.
\<close>

record ohc_state =
  win :: rx_window
  store :: frame_store
  main :: main_state

definition ohc_init :: ohc_state where
  "ohc_init = \<lparr>win = rx_window_init, store = frame_store_init, main = main_reset\<rparr>"

text \<open>The state at line 74 when no byte arrived during the power-on blink.\<close>

definition ohc_entry :: ohc_state where
  "ohc_entry = ohc_init\<lparr>main := main_init\<lparr>trace := power_on_trace\<rparr>\<rparr>"

definition isr_event :: "byte \<Rightarrow> ohc_state \<Rightarrow> ohc_state" where
  "isr_event b s =
     (let r = usart_rx_isr b (win s, store s) in s\<lparr>win := fst r, store := snd r\<rparr>)"

definition main_event :: "(message \<Rightarrow> 16 word) \<Rightarrow> (nat \<Rightarrow> byte) \<Rightarrow> ohc_state \<Rightarrow> ohc_state" where
  "main_event crcf oob s =
     (let r = main_step crcf oob (store s, main s) in s\<lparr>store := fst r, main := snd r\<rparr>)"

inductive ohc_step :: "(message \<Rightarrow> 16 word) \<Rightarrow> (nat \<Rightarrow> byte) \<Rightarrow> ohc_state \<Rightarrow> ohc_state \<Rightarrow> bool"
  for crcf oob where
  isr: "int_enabled (main s) \<Longrightarrow> ohc_step crcf oob s (isr_event b s)"
| run: "ohc_step crcf oob s (main_event crcf oob s)"

inductive ohc_reachable :: "(message \<Rightarrow> 16 word) \<Rightarrow> (nat \<Rightarrow> byte) \<Rightarrow> ohc_state \<Rightarrow> bool"
  for crcf oob where
  init: "ohc_reachable crcf oob ohc_init"
| step: "ohc_reachable crcf oob s \<Longrightarrow> ohc_step crcf oob s t \<Longrightarrow> ohc_reachable crcf oob t"

datatype sched_event = Rx byte | Run

text \<open>The bytes a schedule delivers and the number of main steps it runs.\<close>

fun sched_bytes :: "sched_event list \<Rightarrow> byte list" where
  "sched_bytes [] = []"
| "sched_bytes (Rx b # es) = b # sched_bytes es"
| "sched_bytes (Run # es) = sched_bytes es"

fun sched_runs :: "sched_event list \<Rightarrow> nat" where
  "sched_runs [] = 0"
| "sched_runs (Rx b # es) = sched_runs es"
| "sched_runs (Run # es) = Suc (sched_runs es)"

fun ohc_exec ::
  "(message \<Rightarrow> 16 word) \<Rightarrow> (nat \<Rightarrow> byte) \<Rightarrow> sched_event list \<Rightarrow> ohc_state \<Rightarrow> ohc_state option" where
  "ohc_exec crcf oob [] s = Some s"
| "ohc_exec crcf oob (Rx b # es) s =
     (if int_enabled (main s) then ohc_exec crcf oob es (isr_event b s) else None)"
| "ohc_exec crcf oob (Run # es) s = ohc_exec crcf oob es (main_event crcf oob s)"

text \<open>The interrupt-disabled regions of \<^verbatim>\<open>main()\<close>: from \<^verbatim>\<open>cli()\<close> (lines 36,
  114, 130) to \<^verbatim>\<open>sei()\<close> (lines 59, 121, 138).\<close>

definition cli_region :: "main_pc set" where
  "cli_region = {Reset, Boot_loop, Boot_done, Gps_loop, Gps_done}"

text \<open>The values the 8-bit loop counter \<^verbatim>\<open>i\<close> takes in each loop.\<close>

fun counter_ok :: "main_pc \<Rightarrow> nat \<Rightarrow> bool" where
  "counter_ok Flash_test i = (i \<le> 5)"
| "counter_ok Flash_off i = (i < 5)"
| "counter_ok Fwd_copy i = (i \<le> MSG_SIZE - MSG_CRC_SIZE)"
| "counter_ok Raw_copy i = (i \<le> MSG_SIZE)"
| "counter_ok Boot_loop i = (i mod 6 = 0 \<and> i \<le> SPM_PAGESIZE + 4)"
| "counter_ok Gps_loop i = (i mod 7 = 2 \<and> i \<le> PACKET_SIZE - 4)"
| "counter_ok p i = True"

definition main_inv :: "main_state \<Rightarrow> bool" where
  "main_inv m \<longleftrightarrow>
     length (msg m) = MSG_SIZE \<and> blue_on m = (leds_toggle m \<or> pc m = Flash_off) \<and>
     (pc m \<in> startup_region \<longrightarrow> \<not> leds_toggle m) \<and>
     (int_enabled m \<longleftrightarrow> pc m \<notin> cli_region) \<and> counter_ok (pc m) (unat (loop_i m))"

definition ohc_inv :: "ohc_state \<Rightarrow> bool" where
  "ohc_inv s \<longleftrightarrow> rx_state_wf (win s, store s) \<and> main_inv (main s)"

text \<open>The flag tests at which the main loop may wait: line 75 and the tests of the two
  message relay loops (lines 91, 102).\<close>

definition flag_tests :: "main_pc set" where
  "flag_tests = {Poll, Fwd_test, Raw_test}"

text \<open>An upper bound on the number of main-loop steps from a statement to the next flag
  test, from the loop counters' ranges.\<close>

definition main_rank :: "main_state \<Rightarrow> nat" where
  "main_rank m =
     (let i = unat (loop_i m) in
      case pc m of
        Reset \<Rightarrow> 12 | Flash_test \<Rightarrow> 2 * (5 - i) + 1 | Flash_off \<Rightarrow> 2 * (5 - i)
      | Poll \<Rightarrow> 0 | Clear \<Rightarrow> 60 | Switch \<Rightarrow> 59
      | Fwd_copy \<Rightarrow> (10 - i) + 2 | Fwd_crc \<Rightarrow> 1 | Fwd_test \<Rightarrow> 0 | Fwd_send \<Rightarrow> 1
      | Raw_copy \<Rightarrow> (12 - i) + 1 | Raw_test \<Rightarrow> 0 | Raw_send \<Rightarrow> 1
      | Boot_hdr \<Rightarrow> 40 | Boot_cli \<Rightarrow> 39 | Boot_loop \<Rightarrow> (132 - i) div 6 + 2 | Boot_done \<Rightarrow> 1
      | Gps_hdr \<Rightarrow> 40 | Gps_cli \<Rightarrow> 39 | Gps_loop \<Rightarrow> (132 - i) div 7 + 2 | Gps_done \<Rightarrow> 1)"

subsection \<open>Frame properties of the two kinds of step\<close>

lemma isr_event_main [simp]: "main (isr_event b s) = main s"
  by (simp add: isr_event_def Let_def)

lemma isr_event_rx: "(win (isr_event b s), store (isr_event b s)) = usart_rx_isr b (win s, store s)"
  by (simp add: isr_event_def Let_def del: fst_usart_rx_isr)

lemma main_event_win [simp]: "win (main_event crcf oob s) = win s"
  by (simp add: main_event_def Let_def)

lemma main_event_main: "main (main_event crcf oob s) = snd (main_step crcf oob (store s, main s))"
  by (simp add: main_event_def Let_def)

lemma main_step_store:
  "fst (main_step crcf oob (st, m)) = (if pc m = Clear then st\<lparr>has_new_packet := False\<rparr> else st)"
  by (cases "pc m") (simp_all add: clear_step_def)

lemma main_event_store:
  "store (main_event crcf oob s) =
     (if pc (main s) = Clear then (store s)\<lparr>has_new_packet := False\<rparr> else store s)"
  using main_step_store [of crcf oob "store s" "main s"] by (simp add: main_event_def Let_def)

subsection \<open>The invariant\<close>

lemma ohc_inv_init: "ohc_inv ohc_init"
  using rx_state_wf_init
  by (simp add: ohc_inv_def main_inv_def ohc_init_def main_reset_def rx_state_init_def cli_region_def ohc_consts)

lemma isr_event_inv: "ohc_inv s \<Longrightarrow> ohc_inv (isr_event b s)"
  using usart_rx_isr_wf [of "(win s, store s)" b] isr_event_rx [of b s]
  by (simp add: ohc_inv_def)

lemma counter_step_bounds:
  "(x::nat) mod 6 = 0 \<Longrightarrow> x < 128 \<Longrightarrow> x \<le> 126"
  "(x::nat) mod 7 = 2 \<Longrightarrow> x < 125 \<Longrightarrow> x \<le> 121"
  "(x::nat) mod 6 = 0 \<Longrightarrow> x \<le> 126 \<Longrightarrow> x \<le> 123 \<longleftrightarrow> x \<noteq> 126"
  by presburger+

lemma main_step_inv:
  assumes "main_inv m"
  shows "main_inv (snd (main_step crcf oob (st, m)))"
proof (cases "pc m")
  case Flash_off
  then show ?thesis using assms unat_byte_add [of "loop_i m" 1]
    by (auto simp: main_inv_def flash_off_step_def cli_region_def startup_region_def)
next
  case Fwd_copy
  then show ?thesis using assms unat_byte_add [of "loop_i m" 1]
    by (auto simp: main_inv_def fwd_copy_step_def Let_def cli_region_def startup_region_def ohc_consts)
next
  case Raw_copy
  then show ?thesis using assms unat_byte_add [of "loop_i m" 1]
    by (auto simp: main_inv_def raw_copy_step_def Let_def cli_region_def startup_region_def ohc_consts)
next
  case Boot_loop
  then show ?thesis using assms unat_byte_add [of "loop_i m" 6] counter_step_bounds(1) [of "unat (loop_i m)"]
    by (auto simp: main_inv_def boot_loop_step_def send_msg_def Let_def cli_region_def startup_region_def ohc_consts)
next
  case Gps_loop
  then show ?thesis using assms unat_byte_add [of "loop_i m" 7] counter_step_bounds(2) [of "unat (loop_i m)"]
    by (auto simp: main_inv_def gps_loop_step_def send_msg_def Let_def cli_region_def startup_region_def ohc_consts)
qed (use assms in \<open>auto simp: main_inv_def main_stmt_defs startup_region_def Let_def cli_region_def ohc_consts\<close>)

lemma main_event_inv: "ohc_inv s \<Longrightarrow> ohc_inv (main_event crcf oob s)"
  using main_step_inv [of "main s" crcf oob "store s"]
  by (simp add: ohc_inv_def main_event_main main_event_store rx_state_wf_def)

lemma ohc_step_inv: "ohc_step crcf oob s t \<Longrightarrow> ohc_inv s \<Longrightarrow> ohc_inv t"
  by (induction rule: ohc_step.induct) (simp_all add: isr_event_inv main_event_inv)

lemma ohc_reachable_inv: "ohc_reachable crcf oob s \<Longrightarrow> ohc_inv s"
proof (induction rule: ohc_reachable.induct)
  case init
  show ?case by (rule ohc_inv_init)
next
  case (step s t)
  then show ?case by (blast intro: ohc_step_inv)
qed

subsection \<open>Reads past the frame\<close>

text \<open>Under the counter invariant every step but the last boot-page iteration reads
  \<^verbatim>\<open>new_packet\<close> inside its 132 bytes, so its result does not depend on the memory
  after the array; the last boot-page iteration copies bytes 129--134.\<close>

lemma main_step_oob:
  assumes "main_inv m" and "\<not> (pc m = Boot_loop \<and> unat (loop_i m) = 126 \<and> \<not> has_new_packet st)"
  shows "main_step crcf oob' (st, m) = main_step crcf oob (st, m)"
proof (cases "pc m")
  case Fwd_copy
  then show ?thesis using assms(1) by (auto simp: main_inv_def fwd_copy_step_def Let_def np_read_lt ohc_consts)
next
  case Raw_copy
  then show ?thesis using assms(1) by (auto simp: main_inv_def raw_copy_step_def Let_def np_read_lt ohc_consts)
next
  case Gps_loop
  have "unat (loop_i m) < 125 \<Longrightarrow> unat (loop_i m) + 7 \<le> PACKET_SIZE"
    using assms(1) Gps_loop counter_step_bounds(2) [of "unat (loop_i m)"] by (simp add: main_inv_def ohc_consts)
  then show ?thesis using Gps_loop by (simp add: gps_loop_step_def Let_def map_np_read ohc_consts)
next
  case Boot_loop
  have "unat (loop_i m) < 128 \<Longrightarrow> \<not> has_new_packet st \<Longrightarrow> 9 + unat (loop_i m) \<le> PACKET_SIZE"
    using assms Boot_loop counter_step_bounds(1,3) [of "unat (loop_i m)"] by (simp add: main_inv_def ohc_consts)
  then have "unat (loop_i m) < 128 \<Longrightarrow> \<not> has_new_packet st \<Longrightarrow>
               boot_msg crcf oob' st (loop_i m) (msg m) = boot_msg crcf oob st (loop_i m) (msg m)"
    by (rule boot_msg_in_frame)
  then show ?thesis using Boot_loop by (simp add: boot_loop_step_def Let_def ohc_consts)
qed simp_all

lemma main_step_last_boot_read:
  assumes "pc m = Boot_loop" and "unat (loop_i m) = 126" and "\<not> has_new_packet st"
    and "length (msg m) = MSG_SIZE"
  shows "take 6 (drop 2 (msg (snd (main_step crcf oob (st, m))))) = map (np_read oob st) [129..<135]"
  using assms boot_msg_data [OF assms(4), of "loop_i m" crcf oob st]
  by (simp add: boot_loop_step_def send_msg_def Let_def ohc_consts)

subsection \<open>The type of the frame store\<close>

lemma isr_event_typed:
  "ohc_inv s \<Longrightarrow> store_typed (store s) \<Longrightarrow> store_typed (store (isr_event b s))"
proof -
  have "store (isr_event b s) = snd (usart_rx_isr b (win s, store s))"
    using isr_event_rx [of b s] by (metis snd_conv)
  then show "ohc_inv s \<Longrightarrow> store_typed (store s) \<Longrightarrow> store_typed (store (isr_event b s))"
    using usart_rx_isr_typed [of "(win s, store s)" b] by (simp add: ohc_inv_def)
qed

lemma main_event_typed: "store_typed (store s) \<Longrightarrow> store_typed (store (main_event crcf oob s))"
  by (simp add: main_event_store store_typed_def)

lemma ohc_reachable_typed: "ohc_reachable crcf oob s \<Longrightarrow> store_typed (store s)"
proof (induction rule: ohc_reachable.induct)
  case init
  show ?case using store_typed_init by (simp add: ohc_init_def)
next
  case (step s t)
  from step.hyps(2) show ?case
  proof cases
    case (isr b)
    then show ?thesis using isr_event_typed [OF ohc_reachable_inv [OF step.hyps(1)] step.IH] by simp
  next
    case run
    then show ?thesis using main_event_typed [OF step.IH] by simp
  qed
qed

subsection \<open>Progress of the main loop\<close>

lemma main_rank_le: "main_rank m \<le> 60"
  by (cases "pc m") (simp_all add: main_rank_def Let_def)

lemma rank_div_step:
  assumes "i + d \<le> (132::nat)" and "0 < d"
  shows "(132 - (i + d)) div d < (132 - i) div d"
proof -
  have eq: "132 - i = (132 - (i + d)) + d" using assms(1) by arith
  have "((132 - (i + d)) + d) div d = (132 - (i + d)) div d + 1"
    using assms(2) by (intro div_add_self2) simp
  then show ?thesis by (simp only: eq)
qed

lemma main_rank_step:
  assumes "main_inv m" and "pc m \<notin> flag_tests"
  shows "main_rank (snd (main_step crcf oob (st, m))) < main_rank m"
proof (cases "pc m")
  case Flash_off
  then show ?thesis using assms unat_byte_add [of "loop_i m" 1]
    by (simp add: main_inv_def main_rank_def flash_off_step_def, arith)
next
  case Flash_test
  then show ?thesis using assms
    by (simp add: main_inv_def main_rank_def flash_test_step_def)
next
  case Fwd_copy
  then show ?thesis using assms unat_byte_add [of "loop_i m" 1]
    by (simp add: main_inv_def main_rank_def fwd_copy_step_def Let_def ohc_consts, arith)
next
  case Raw_copy
  then show ?thesis using assms unat_byte_add [of "loop_i m" 1]
    by (simp add: main_inv_def main_rank_def raw_copy_step_def Let_def ohc_consts, arith)
next
  case Boot_loop
  then show ?thesis using assms unat_byte_add [of "loop_i m" 6] counter_step_bounds(1) [of "unat (loop_i m)"]
      rank_div_step [of "unat (loop_i m)" 6]
    by (simp add: main_inv_def main_rank_def boot_loop_step_def send_msg_def Let_def ohc_consts)
next
  case Gps_loop
  then show ?thesis using assms unat_byte_add [of "loop_i m" 7] counter_step_bounds(2) [of "unat (loop_i m)"]
      rank_div_step [of "unat (loop_i m)" 7]
    by (simp add: main_inv_def main_rank_def gps_loop_step_def send_msg_def Let_def ohc_consts)
next
  case Switch
  then show ?thesis
    by (simp add: main_rank_def switch_step_def led_toggle_def Let_def)
qed (use assms in \<open>simp_all add: flag_tests_def main_rank_def main_stmt_defs Let_def\<close>)

lemma main_reaches_flag_test:
  "main_inv m \<Longrightarrow> \<exists>k \<le> main_rank m. pc (snd (main_run crcf oob k (st, m))) \<in> flag_tests"
proof (induction "main_rank m" arbitrary: st m rule: less_induct)
  case less
  show ?case
  proof (cases "pc m \<in> flag_tests")
    case True
    then show ?thesis by (intro exI [of _ 0]) simp
  next
    case False
    obtain st' m' where step: "main_step crcf oob (st, m) = (st', m')" by fastforce
    have inv: "main_inv m'"
      using main_step_inv [OF less.prems, of crcf oob st] step by simp
    have lt: "main_rank m' < main_rank m"
      using main_rank_step [OF less.prems False, of crcf oob st] step by simp
    obtain k where "k \<le> main_rank m'" and "pc (snd (main_run crcf oob k (st', m'))) \<in> flag_tests"
      using less.hyps [OF lt inv] by blast
    then show ?thesis
      using lt step by (intro exI [of _ "Suc k"]) (simp del: main_step.simps)
  qed
qed

subsection \<open>Schedules\<close>

lemma ohc_exec_append:
  "ohc_exec crcf oob (xs @ ys) s = Option.bind (ohc_exec crcf oob xs s) (ohc_exec crcf oob ys)"
  by (induction crcf oob xs s rule: ohc_exec.induct) simp_all

lemma ohc_exec_reachable:
  "ohc_exec crcf oob es s = Some t \<Longrightarrow> ohc_reachable crcf oob s \<Longrightarrow> ohc_reachable crcf oob t"
proof (induction crcf oob es s rule: ohc_exec.induct)
  case (1 crcf oob s)
  then show ?case by simp
next
  case (2 crcf oob b es s)
  then show ?case
    by (auto split: if_splits intro: ohc_reachable.step ohc_step.isr)
next
  case (3 crcf oob es s)
  then show ?case
    by (auto intro: ohc_reachable.step ohc_step.run)
qed

lemma ohc_reachable_exec:
  "ohc_reachable crcf oob s \<Longrightarrow> \<exists>es. ohc_exec crcf oob es ohc_init = Some s"
proof (induction rule: ohc_reachable.induct)
  case init
  have "ohc_exec crcf oob [] ohc_init = Some ohc_init" by simp
  then show ?case by blast
next
  case (step s t)
  from step.IH obtain es where es: "ohc_exec crcf oob es ohc_init = Some s" by blast
  from step.hyps(2) show ?case
  proof cases
    case (isr b)
    then have "ohc_exec crcf oob (es @ [Rx b]) ohc_init = Some t"
      using es by (simp add: ohc_exec_append)
    then show ?thesis by blast
  next
    case run
    then have "ohc_exec crcf oob (es @ [Run]) ohc_init = Some t"
      using es by (simp add: ohc_exec_append)
    then show ?thesis by blast
  qed
qed

lemma ohc_exec_rx:
  "int_enabled (main s) \<Longrightarrow>
   ohc_exec crcf oob (map Rx bs) s =
     Some (s\<lparr>win := fst (rx_feed bs (win s, store s)), store := snd (rx_feed bs (win s, store s))\<rparr>)"
proof (induction bs arbitrary: s)
  case Nil
  then show ?case by simp
next
  case (Cons b bs)
  have "int_enabled (main (isr_event b s))" using Cons.prems by simp
  then show ?case
    using Cons.IH [of "isr_event b s"] Cons.prems isr_event_rx [of b s]
    by (simp del: fst_usart_rx_isr)
qed

lemma exec_frame:
  assumes "int_enabled (main s)" and "rx_state_wf (win s, store s)" and "length p = 129"
  shows "\<exists>w st. ohc_exec crcf oob (map Rx (mk_frame t p)) s = Some (s\<lparr>win := w, store := st\<rparr>) \<and>
           has_new_packet st \<and> packet_type st = t \<and> new_packet st = mk_frame t p \<and> rx_state_wf (w, st)"
proof -
  let ?r = "rx_feed (mk_frame t p) (win s, store s)"
  have ex: "ohc_exec crcf oob (map Rx (mk_frame t p)) s = Some (s\<lparr>win := fst ?r, store := snd ?r\<rparr>)"
    by (rule ohc_exec_rx [OF assms(1)])
  have pub: "snd ?r = store_publish (mk_frame t p) (snd (rx_feed (butlast (mk_frame t p)) (win s, store s)))"
    using assms(2) mk_frame_valid [OF assms(3)] by (rule rx_feed_frame)
  have wf: "rx_state_wf (fst ?r, snd ?r)"
    using rx_feed_wf [OF assms(2)] by simp
  have "has_new_packet (snd ?r) \<and> packet_type (snd ?r) = t \<and> new_packet (snd ?r) = mk_frame t p"
    using pub by (simp add: store_publish_def)
  then show ?thesis using ex wf by blast
qed

text \<open>A run in which no main step touches the frame store or depends on it (the main
  steps follow a fixed sequence of states \<open>g\<close>) interleaves with the interrupt freely:
  the receiver sees all bytes of the schedule, the main loop all its steps.\<close>

lemma ohc_exec_blind:
  assumes "\<And>k st. j \<le> k \<Longrightarrow> k < j + sched_runs es \<Longrightarrow> main_step crcf oob (st, g k) = (st, g (Suc k))"
    and "\<And>k. j \<le> k \<Longrightarrow> k \<le> j + sched_runs es \<Longrightarrow> int_enabled (g k)"
    and "main s = g j"
  shows "ohc_exec crcf oob es s =
           Some (s\<lparr>win := fst (rx_feed (sched_bytes es) (win s, store s)),
                   store := snd (rx_feed (sched_bytes es) (win s, store s)), main := g (j + sched_runs es)\<rparr>)"
  using assms
proof (induction es arbitrary: j s)
  case Nil
  then show ?case by simp
next
  case (Cons e es)
  show ?case
  proof (cases e)
    case (Rx b)
    have "int_enabled (main s)" using Cons.prems(2) [of j] Cons.prems(3) by simp
    moreover have "ohc_exec crcf oob es (isr_event b s) =
            Some ((isr_event b s)\<lparr>win := fst (rx_feed (sched_bytes es) (win (isr_event b s), store (isr_event b s))),
                   store := snd (rx_feed (sched_bytes es) (win (isr_event b s), store (isr_event b s))),
                   main := g (j + sched_runs es)\<rparr>)"
      using Cons.prems Rx by (intro Cons.IH) simp_all
    ultimately show ?thesis
      using Rx isr_event_rx [of b s] by (simp add: isr_event_def Let_def del: fst_usart_rx_isr)
  next
    case Run
    have step: "main_event crcf oob s = s\<lparr>main := g (Suc j)\<rparr>"
      using Cons.prems(1) [of j "store s"] Cons.prems(3) Run by (simp add: main_event_def)
    have "ohc_exec crcf oob es (s\<lparr>main := g (Suc j)\<rparr>) =
            Some (s\<lparr>win := fst (rx_feed (sched_bytes es) (win s, store s)),
                    store := snd (rx_feed (sched_bytes es) (win s, store s)), main := g (Suc j + sched_runs es)\<rparr>)"
      using Cons.prems Run by (intro Cons.IH [of "Suc j", THEN trans]) simp_all
    then show ?thesis using Run step by simp
  qed
qed

lemma startup_blind:
  assumes "1 \<le> k" and "k < 12"
  shows "main_step crcf oob (st, snd (main_run crcf oob k (st0, main_reset))) =
           (st, snd (main_run crcf oob (Suc k) (st0, main_reset)))"
proof -
  obtain st1 m1 where p: "main_run crcf oob k (st0, main_reset) = (st1, m1)" by fastforce
  then have "pc m1 \<in> startup_region"
    using startup_states [OF assms(2), of crcf oob st0] by simp
  then have "main_step crcf oob (st, m1) = (st, snd (main_step crcf oob (st1, m1)))"
    by (rule main_step_startup)
  then show ?thesis
    using main_run_Suc_last [of crcf oob k "(st0, main_reset)"] p by (simp del: main_step.simps)
qed

lemma ohc_exec_runs:
  "ohc_exec crcf oob (replicate n Run) s =
     Some (s\<lparr>store := fst (main_run crcf oob n (store s, main s)), main := snd (main_run crcf oob n (store s, main s))\<rparr>)"
proof (induction n arbitrary: s)
  case 0
  then show ?case by simp
next
  case (Suc n)
  then show ?case by (simp add: main_event_def Let_def)
qed

lemma ohc_exec_startup: "ohc_exec crcf oob (replicate 12 Run) ohc_init = Some ohc_entry"
  using ohc_exec_runs [of crcf oob 12 ohc_init] startup_run [of crcf oob frame_store_init]
  by (simp add: ohc_init_def ohc_entry_def)

lemma ohc_entry_facts:
  "int_enabled (main ohc_entry)" "rx_state_wf (win ohc_entry, store ohc_entry)" "pc (main ohc_entry) = Poll"
  "main ohc_entry = main_init\<lparr>trace := power_on_trace\<rparr>"
  using rx_state_wf_init by (simp_all add: ohc_entry_def ohc_init_def main_init_def rx_state_init_def)

lemma mk_frame_fragment:
  "length p = 129 \<Longrightarrow> k + 7 \<le> 129 \<Longrightarrow> map ((!) (mk_frame t p)) [k + 2..<k + 9] = take 7 (drop k p)"
  by (rule nth_equalityI) (simp_all add: mk_frame_def nth_append)

lemma mk_frame_fragment0: "length p = 129 \<Longrightarrow> map ((!) (mk_frame t p)) [2..<9] = take 7 p"
  using mk_frame_fragment [of p 0 t] by (simp only: add_0 drop_0 order_refl le_add_same_cancel2 zero_le)

lemma rx_state_wf_flag [simp]: "rx_state_wf (w, st\<lparr>has_new_packet := b\<rparr>) = rx_state_wf (w, st)"
  by (simp add: rx_state_wf_def)

text \<open>Power-on followed by the bytes of one frame: the main loop waits at line 75 with
  the frame published.\<close>

lemma exec_power_on_frame:
  assumes "length p = 129"
  obtains w st where
    "\<And>es. ohc_exec crcf oob (replicate 12 Run @ map Rx (mk_frame t p) @ es) ohc_init =
       ohc_exec crcf oob es (ohc_entry\<lparr>win := w, store := st\<rparr>)"
    and "has_new_packet st" and "packet_type st = t" and "new_packet st = mk_frame t p"
    and "rx_state_wf (w, st)"
proof -
  obtain w st where ex: "ohc_exec crcf oob (map Rx (mk_frame t p)) ohc_entry = Some (ohc_entry\<lparr>win := w, store := st\<rparr>)"
    and st: "has_new_packet st" "packet_type st = t" "new_packet st = mk_frame t p" "rx_state_wf (w, st)"
    using exec_frame [OF ohc_entry_facts(1,2) assms, of crcf oob t] by auto
  have "\<And>es. ohc_exec crcf oob (replicate 12 Run @ map Rx (mk_frame t p) @ es) ohc_init =
          ohc_exec crcf oob es (ohc_entry\<lparr>win := w, store := st\<rparr>)"
    using ex by (simp add: ohc_exec_append ohc_exec_startup)
  then show ?thesis using st by (rule that)
qed

lemma gps_fragments_frame:
  assumes "new_packet st = mk_frame t p" and "length p = 129"
  shows "map (gps_fragment st) [0..<18] = map (\<lambda>j. take 7 (drop (7 * j) p)) [0..<18]"
proof (rule map_cong [OF refl])
  fix j assume "j \<in> set [0..<18]"
  then have "7 * j + 7 \<le> 129" by simp
  then show "gps_fragment st j = take 7 (drop (7 * j) p)"
    using mk_frame_fragment [OF assms(2), of "7 * j" t] assms(1) by (simp add: gps_fragment_def add.commute)
qed

end
