(* ===== verification/Dispatch_Spec.thy ===== *)
theory Dispatch_Spec
  imports System
begin

text \<open>
  The dispatcher of the spec (section 4.3) as an abstract state machine, and the
  refinement of it by the program. The abstract state is the dispatcher's state
  \<open>disp_state\<close>, the flag FrameAvailable and the type of the frame in the store; its
  steps are the spec's transitions (Idle to Decode by consuming the flag, Decode to the
  behaviour of the type, each behaviour back to Idle, the message relays only once a
  fresher frame is available) and the publication of a frame by the receive handler.
  Start-up, which the spec leaves to the Bootstrap collaborator, is the state
  \<open>Startup\<close>. \<open>pc_abs\<close> maps the program counter of \<open>Dispatcher\<close> to the spec's
  states and \<open>disp_abs\<close> the whole program state to the abstract one.
\<close>

datatype disp_state =
    Startup | Idle | Decode
  | Noop | ToggleIndicator | RelayMessage | RelayRawMessage | RelayBootPage | RelayGpsFrames

record disp_spec =
  dstate :: disp_state
  avail :: bool
  ftype :: byte

text \<open>The behaviour the spec assigns to a packet type; unlisted types do nothing.\<close>

definition behaviour :: "byte \<Rightarrow> disp_state" where
  "behaviour t =
     (if t = PACKET_LEDTOGGLE then ToggleIndicator
      else if t = PACKET_FORWARDMSG then RelayMessage
      else if t = PACKET_FORWARDRAWMSG then RelayRawMessage
      else if t = PACKET_BOOTPAGE then RelayBootPage
      else if t = PACKET_GPSFRAME then RelayGpsFrames
      else Noop)"

definition spec_init :: disp_spec where
  "spec_init = \<lparr>dstate = Startup, avail = False, ftype = 0\<rparr>"

inductive spec_step :: "disp_spec \<Rightarrow> disp_spec \<Rightarrow> bool" where
  start: "dstate a = Startup \<Longrightarrow> spec_step a (a\<lparr>dstate := Idle\<rparr>)"
| take: "dstate a = Idle \<Longrightarrow> avail a \<Longrightarrow> spec_step a (a\<lparr>dstate := Decode, avail := False\<rparr>)"
| decode: "dstate a = Decode \<Longrightarrow> spec_step a (a\<lparr>dstate := behaviour (ftype a)\<rparr>)"
| finish: "dstate a \<in> {Noop, ToggleIndicator, RelayBootPage, RelayGpsFrames} \<Longrightarrow>
           spec_step a (a\<lparr>dstate := Idle\<rparr>)"
| cancel: "dstate a \<in> {RelayMessage, RelayRawMessage} \<Longrightarrow> avail a \<Longrightarrow> spec_step a (a\<lparr>dstate := Idle\<rparr>)"
| publish: "spec_step a (a\<lparr>avail := True, ftype := t\<rparr>)"

fun pc_abs :: "main_pc \<Rightarrow> disp_state" where
  "pc_abs Reset = Startup" | "pc_abs Flash_test = Startup" | "pc_abs Flash_off = Startup"
| "pc_abs Poll = Idle" | "pc_abs Clear = Idle" | "pc_abs Switch = Decode"
| "pc_abs Fwd_copy = RelayMessage" | "pc_abs Fwd_crc = RelayMessage"
| "pc_abs Fwd_test = RelayMessage" | "pc_abs Fwd_send = RelayMessage"
| "pc_abs Raw_copy = RelayRawMessage" | "pc_abs Raw_test = RelayRawMessage"
| "pc_abs Raw_send = RelayRawMessage"
| "pc_abs Boot_hdr = RelayBootPage" | "pc_abs Boot_cli = RelayBootPage"
| "pc_abs Boot_loop = RelayBootPage" | "pc_abs Boot_done = RelayBootPage"
| "pc_abs Gps_hdr = RelayGpsFrames" | "pc_abs Gps_cli = RelayGpsFrames"
| "pc_abs Gps_loop = RelayGpsFrames" | "pc_abs Gps_done = RelayGpsFrames"

definition disp_abs :: "ohc_state \<Rightarrow> disp_spec" where
  "disp_abs s = \<lparr>dstate = pc_abs (pc (main s)), avail = has_new_packet (store s), ftype = packet_type (store s)\<rparr>"

subsection \<open>The flag is up at the clear\<close>

lemma clear_flag_step:
  "ohc_step crcf oob s t \<Longrightarrow> (pc (main s) = Clear \<longrightarrow> has_new_packet (store s)) \<Longrightarrow>
   pc (main t) = Clear \<longrightarrow> has_new_packet (store t)"
proof (induction rule: ohc_step.induct)
  case (isr s b)
  then show ?case
    using snd_usart_rx_isr isr_event_rx [of b s]
    by (auto simp: isr_event_def Let_def usart_rx_isr_def store_publish_def)
next
  case (run s)
  then show ?case
    by (cases "pc (main s)") (auto simp: main_event_def Let_def main_stmt_defs)
qed

lemma reachable_clear_flag:
  "ohc_reachable crcf oob s \<Longrightarrow> pc (main s) = Clear \<longrightarrow> has_new_packet (store s)"
proof (induction rule: ohc_reachable.induct)
  case init
  then show ?case by (simp add: ohc_init_def main_reset_def)
next
  case (step s t)
  then show ?case using clear_flag_step by blast
qed

subsection \<open>Simulation\<close>

lemma spec_stay: "a = b \<Longrightarrow> spec_step\<^sup>*\<^sup>* a b"
  by simp

lemma spec_one:
  "dstate a = Startup \<Longrightarrow> b = a\<lparr>dstate := Idle\<rparr> \<Longrightarrow> spec_step\<^sup>*\<^sup>* a b"
  "dstate a = Idle \<Longrightarrow> avail a \<Longrightarrow> b = a\<lparr>dstate := Decode, avail := False\<rparr> \<Longrightarrow> spec_step\<^sup>*\<^sup>* a b"
  "dstate a = Decode \<Longrightarrow> b = a\<lparr>dstate := behaviour (ftype a)\<rparr> \<Longrightarrow> spec_step\<^sup>*\<^sup>* a b"
  "dstate a \<in> {Noop, ToggleIndicator, RelayBootPage, RelayGpsFrames} \<Longrightarrow> b = a\<lparr>dstate := Idle\<rparr> \<Longrightarrow>
   spec_step\<^sup>*\<^sup>* a b"
  "dstate a \<in> {RelayMessage, RelayRawMessage} \<Longrightarrow> avail a \<Longrightarrow> b = a\<lparr>dstate := Idle\<rparr> \<Longrightarrow> spec_step\<^sup>*\<^sup>* a b"
  "b = a\<lparr>avail := True, ftype := t\<rparr> \<Longrightarrow> spec_step\<^sup>*\<^sup>* a b"
  by (simp_all add: r_into_rtranclp spec_step.intros)

text \<open>A frame of no relay type is decoded and finished within the switch statement.\<close>

lemma spec_decode_done:
  assumes "dstate a = Decode" and "behaviour (ftype a) \<in> {Noop, ToggleIndicator}" and "b = a\<lparr>dstate := Idle\<rparr>"
  shows "spec_step\<^sup>*\<^sup>* a b"
proof -
  have "spec_step a (a\<lparr>dstate := behaviour (ftype a)\<rparr>)" using assms(1) by (rule spec_step.decode)
  moreover have "spec_step (a\<lparr>dstate := behaviour (ftype a)\<rparr>) b"
    using assms(2,3) spec_step.finish [of "a\<lparr>dstate := behaviour (ftype a)\<rparr>"] by auto
  ultimately show ?thesis by (meson converse_rtranclp_into_rtranclp r_into_rtranclp)
qed

lemma isr_event_abs: "spec_step\<^sup>*\<^sup>* (disp_abs s) (disp_abs (isr_event b s))"
  by (auto simp: isr_event_def usart_rx_isr_def Let_def store_publish_def disp_abs_def intro: spec_one(6) spec_stay)

lemma main_event_abs:
  assumes "pc (main s) = Clear \<longrightarrow> has_new_packet (store s)"
  shows "spec_step\<^sup>*\<^sup>* (disp_abs s) (disp_abs (main_event crcf oob s))"
proof (cases "pc (main s)")
  case Switch
  then show ?thesis
    by (auto simp: main_event_def disp_abs_def switch_step_def led_toggle_def behaviour_def Let_def ohc_consts
        intro: spec_one(3) spec_decode_done)
next
  case Clear
  then show ?thesis using assms
    by (auto simp: main_event_def disp_abs_def clear_step_def intro: spec_one(2))
qed (auto simp: main_event_def disp_abs_def Let_def main_stmt_defs intro: spec_stay spec_one(1,4,5))

subsection \<open>Refinement\<close>

text \<open>C30: the program refines the spec's dispatcher. Every state reachable from
  power-on, by any interleaving of received bytes and program steps, abstracts to a
  state the spec's dispatcher reaches from its initial state: the main loop enters
  Decode only by consuming the flag, decodes by the frame's type, leaves the message
  relays only once a fresher frame is available, and every other behaviour returns to
  Idle; each program step is zero, one or two steps of the spec.\<close>

theorem program_refines_dispatcher:
  assumes "ohc_reachable crcf oob s"
  shows "spec_step\<^sup>*\<^sup>* spec_init (disp_abs s)"
  using assms
proof (induction rule: ohc_reachable.induct)
  case init
  have "disp_abs ohc_init = spec_init"
    by (simp add: disp_abs_def spec_init_def ohc_init_def main_reset_def frame_store_init_def)
  then show ?case by simp
next
  case (step s t)
  from step.hyps(2) have "spec_step\<^sup>*\<^sup>* (disp_abs s) (disp_abs t)"
  proof cases
    case (isr b)
    then show ?thesis using isr_event_abs by simp
  next
    case run
    then show ?thesis using main_event_abs reachable_clear_flag [OF step.hyps(1)] by simp
  qed
  with step.IH show ?case by (rule rtranclp_trans)
qed

theorem program_refines_dispatcher_witness:
  "ohc_reachable (\<lambda>_. 0) (\<lambda>_. 0) ohc_entry \<and> spec_step\<^sup>*\<^sup>* spec_init (disp_abs ohc_entry)"
proof -
  have r: "ohc_reachable (\<lambda>_. 0) (\<lambda>_. 0) ohc_entry"
    using ohc_exec_reachable [OF ohc_exec_startup ohc_reachable.init] .
  show ?thesis using program_refines_dispatcher [OF r] r by simp
qed

end
