(* ===== verification/Ports.thy ===== *)
theory Ports
  imports System
begin

text \<open>
  The I/O registers the program writes, at the level of their bits: the register file
  \<open>io_regs\<close> of the ATmega328P registers named in \<^verbatim>\<open>main()\<close>, the pin macros of
  lines 28--33 (\<open>ir_port\<close>, \<open>blue_port\<close>, \<open>green_port\<close> and their masks), the
  read-modify-write port statements (\<open>port_or\<close> for \<^verbatim>\<open>port |= mask\<close>,
  \<open>port_andnot\<close> for \<^verbatim>\<open>port &= ~mask\<close>, \<open>with_bit\<close> for the two-armed write of
  lines 82--85), the register set-up of lines 38--61 (\<open>io_setup\<close>) and the port
  write performed by each LED event of the trace (\<open>led_write\<close>).

  The step machine of \<open>Dispatcher\<close> records every LED port write, in program order,
  as a \<open>Blue\<close> or \<open>Green\<close> event of its trace; \<open>ohc_ports\<close> replays the trace of a
  program state on the registers left by \<open>io_setup\<close>, which gives the register file
  of that state. The bit numbers of \<^verbatim>\<open><avr/io.h>\<close> (\<open>ACD\<close>, \<open>IVCE\<close>, ...) are
  the ATmega328P values of the library header; \<^verbatim>\<open>UBRR_VALUE\<close> and \<^verbatim>\<open>USE_2X\<close>,
  which \<^verbatim>\<open><util/setbaud.h>\<close> computes from the build's \<^verbatim>\<open>F_CPU\<close>, are the
  parameters \<open>ubrr\<close> and \<open>use_2x\<close>; the boot values of the registers (left by the
  reset or by the bootloader) are the parameter \<open>r0\<close>.
\<close>

record io_regs =
  DDRB :: byte
  DDRD :: byte
  PORTB :: byte
  PORTD :: byte
  ACSR :: byte
  MCUCR :: byte
  UBRR0 :: "16 word"
  UCSR0A :: byte
  UCSR0B :: byte
  UCSR0C :: byte
  tx_mask :: byte

datatype avr_port = PB | PD

definition ACD :: nat where "ACD = 7"
definition IVCE :: nat where "IVCE = 0"
definition IVSEL :: nat where "IVSEL = 1"
definition U2X0 :: nat where "U2X0 = 1"
definition UCSZ00 :: nat where "UCSZ00 = 1"
definition UCSZ01 :: nat where "UCSZ01 = 2"
definition TXEN0 :: nat where "TXEN0 = 3"
definition RXEN0 :: nat where "RXEN0 = 4"
definition RXCIE0 :: nat where "RXCIE0 = 7"

lemmas avr_bits = ACD_def IVCE_def IVSEL_def U2X0_def UCSZ00_def UCSZ01_def TXEN0_def RXEN0_def
  RXCIE0_def

definition ir_port :: avr_port where "ir_port = PD"
definition ir_mask :: byte where "ir_mask = push_bit 3 1"
definition blue_port :: avr_port where "blue_port = PD"
definition blue_mask :: byte where "blue_mask = push_bit 2 1"
definition green_port :: avr_port where "green_port = PB"
definition green_mask :: byte where "green_mask = push_bit 1 1"

text \<open>Reading and writing the output register of a port.\<close>

definition port_reg :: "avr_port \<Rightarrow> io_regs \<Rightarrow> byte" where
  "port_reg p r = (case p of PB \<Rightarrow> PORTB r | PD \<Rightarrow> PORTD r)"

definition port_set :: "avr_port \<Rightarrow> byte \<Rightarrow> io_regs \<Rightarrow> io_regs" where
  "port_set p v r = (case p of PB \<Rightarrow> r\<lparr>PORTB := v\<rparr> | PD \<Rightarrow> r\<lparr>PORTD := v\<rparr>)"

text \<open>\<^verbatim>\<open>port |= mask\<close> and \<^verbatim>\<open>port &= ~mask\<close>.\<close>

definition port_or :: "avr_port \<Rightarrow> byte \<Rightarrow> io_regs \<Rightarrow> io_regs" where
  "port_or p bits r = port_set p (port_reg p r OR bits) r"

definition port_andnot :: "avr_port \<Rightarrow> byte \<Rightarrow> io_regs \<Rightarrow> io_regs" where
  "port_andnot p bits r = port_set p (port_reg p r AND NOT bits) r"

text \<open>Lines 82--85: \<^verbatim>\<open>if (b) port |= mask; else port &= ~mask;\<close>, on the register
  value.\<close>

definition with_bit :: "bool \<Rightarrow> byte \<Rightarrow> byte \<Rightarrow> byte" where
  "with_bit b bits x = (if b then x OR bits else x AND NOT bits)"

text \<open>Lines 38--61, from \<^verbatim>\<open>DDRB = ...\<close> to \<^verbatim>\<open>tx_mask = ir_mask\<close>; the
  \<^verbatim>\<open>#if USE_2X\<close> of lines 52--56 is the test of the parameter \<open>use_2x\<close>.\<close>

definition io_setup :: "16 word \<Rightarrow> bool \<Rightarrow> io_regs \<Rightarrow> io_regs" where
  "io_setup ubrr use_2x r0 =
     (let r = r0\<lparr>DDRB := push_bit 1 1 OR push_bit 2 1\<rparr>;
          r = r\<lparr>DDRD := push_bit 2 1 OR push_bit 3 1\<rparr>;
          r = port_andnot ir_port ir_mask r;
          r = r\<lparr>ACSR := ACSR r OR push_bit ACD 1\<rparr>;
          r = r\<lparr>MCUCR := push_bit IVCE 1\<rparr>;
          r = r\<lparr>MCUCR := push_bit IVSEL 1\<rparr>;
          r = r\<lparr>UBRR0 := ubrr\<rparr>;
          r = (if use_2x then r\<lparr>UCSR0A := UCSR0A r OR push_bit U2X0 1\<rparr>
               else r\<lparr>UCSR0A := UCSR0A r AND NOT (push_bit U2X0 1)\<rparr>);
          r = r\<lparr>UCSR0C := UCSR0C r OR (push_bit UCSZ01 1 OR push_bit UCSZ00 1)\<rparr>;
          r = r\<lparr>UCSR0B := UCSR0B r OR (push_bit RXCIE0 1 OR push_bit RXEN0 1 OR push_bit TXEN0 1)\<rparr>
      in r\<lparr>tx_mask := ir_mask\<rparr>)"

text \<open>The port write behind each LED event: \<^verbatim>\<open>blue_port |= blue_mask\<close> and
  \<^verbatim>\<open>blue_port &= ~blue_mask\<close> (lines 66, 69, 83, 85), \<^verbatim>\<open>green_port |= green_mask\<close>
  and \<^verbatim>\<open>green_port &= ~green_mask\<close> (lines 67, 70, 93, 95, 104, 106, 122, 124, 139,
  141); \<^verbatim>\<open>message_send\<close> touches no port.\<close>

fun led_write :: "out_event \<Rightarrow> io_regs \<Rightarrow> io_regs" where
  "led_write (Blue b) r = (if b then port_or blue_port blue_mask r else port_andnot blue_port blue_mask r)"
| "led_write (Green b) r = (if b then port_or green_port green_mask r else port_andnot green_port green_mask r)"
| "led_write (Sent x) r = r"

text \<open>The register file of a program state: the boot values before line 38, and
  after the set-up the port writes of the trace replayed in order.\<close>

definition ohc_ports :: "16 word \<Rightarrow> bool \<Rightarrow> io_regs \<Rightarrow> ohc_state \<Rightarrow> io_regs" where
  "ohc_ports ubrr use_2x r0 s =
     (if pc (main s) = Reset then r0 else fold led_write (trace (main s)) (io_setup ubrr use_2x r0))"

text \<open>The port registers expected in a main-loop state: the IR LED cleared by the
  set-up, the blue LED as \<open>blue_on\<close>, the green LED lit only inside the blink.\<close>

definition ports_expected :: "io_regs \<Rightarrow> main_state \<Rightarrow> io_regs \<Rightarrow> bool" where
  "ports_expected r1 m r \<longleftrightarrow>
     r = r1\<lparr>PORTB := with_bit (pc m = Flash_off) green_mask (PORTB r1),
            PORTD := with_bit (blue_on m) blue_mask (PORTD r1)\<rparr>"

definition ports_inv :: "io_regs \<Rightarrow> main_state \<Rightarrow> bool" where
  "ports_inv r1 m \<longleftrightarrow>
     (pc m = Reset \<and> trace m = []) \<or> (pc m = Flash_test \<and> trace m = [] \<and> loop_i m = 0) \<or>
     ports_expected r1 m (fold led_write (trace m) r1)"

subsection \<open>Bits of the masks\<close>

lemma mask_bits [reg_bits, simp]:
  "bit ir_mask n \<longleftrightarrow> n = 3" "bit blue_mask n \<longleftrightarrow> n = 2" "bit green_mask n \<longleftrightarrow> n = 1"
  unfolding ir_mask_def blue_mask_def green_mask_def bit_push_one by simp_all

lemma bit_with_bit [reg_bits]: "bit (with_bit b bits x) n \<longleftrightarrow> (if bit bits n then b else bit x n)"
  by (auto simp: with_bit_def bit_simps dest: bit_imp_le_length)

lemma with_bit_twice [simp]: "with_bit b bits (with_bit c bits x) = with_bit b bits x"
  by (rule bit_eqI) (simp add: bit_with_bit)

lemma led_write_Blue [simp]:
  "led_write (Blue b) r = r\<lparr>PORTD := with_bit b blue_mask (PORTD r)\<rparr>"
  by (simp add: port_or_def port_andnot_def port_set_def port_reg_def blue_port_def with_bit_def)

lemma led_write_Green [simp]:
  "led_write (Green b) r = r\<lparr>PORTB := with_bit b green_mask (PORTB r)\<rparr>"
  by (simp add: port_or_def port_andnot_def port_set_def port_reg_def green_port_def with_bit_def)


declare led_write.simps(1-2) [simp del]

lemma led_write_regs [simp]:
  "DDRB (led_write e r) = DDRB r" "DDRD (led_write e r) = DDRD r"
  "ACSR (led_write e r) = ACSR r" "MCUCR (led_write e r) = MCUCR r"
  "UBRR0 (led_write e r) = UBRR0 r" "UCSR0A (led_write e r) = UCSR0A r"
  "UCSR0B (led_write e r) = UCSR0B r" "UCSR0C (led_write e r) = UCSR0C r"
  "tx_mask (led_write e r) = tx_mask r"
  by (cases e; simp add: led_write.simps port_or_def port_andnot_def port_set_def port_reg_def
      blue_port_def green_port_def)+

lemma fold_led_write_regs [simp]:
  "DDRB (fold led_write tr r) = DDRB r" "DDRD (fold led_write tr r) = DDRD r"
  "ACSR (fold led_write tr r) = ACSR r" "MCUCR (fold led_write tr r) = MCUCR r"
  "UBRR0 (fold led_write tr r) = UBRR0 r" "UCSR0A (fold led_write tr r) = UCSR0A r"
  "UCSR0B (fold led_write tr r) = UCSR0B r" "UCSR0C (fold led_write tr r) = UCSR0C r"
  "tx_mask (fold led_write tr r) = tx_mask r"
  by (induction tr arbitrary: r) simp_all

lemma io_setup_eq:
  "io_setup ubrr use_2x r0 =
     r0\<lparr>DDRB := 6, DDRD := 12, PORTD := PORTD r0 AND NOT ir_mask, ACSR := ACSR r0 OR push_bit ACD 1,
        MCUCR := push_bit IVSEL 1, UBRR0 := ubrr, UCSR0A := with_bit use_2x (push_bit U2X0 1) (UCSR0A r0),
        UCSR0C := UCSR0C r0 OR (push_bit UCSZ01 1 OR push_bit UCSZ00 1),
        UCSR0B := UCSR0B r0 OR (push_bit RXCIE0 1 OR push_bit RXEN0 1 OR push_bit TXEN0 1),
        tx_mask := ir_mask\<rparr>"
  by (simp add: io_setup_def Let_def port_andnot_def port_set_def port_reg_def ir_port_def with_bit_def)

subsection \<open>The LED ports along the program\<close>

lemma main_step_ports_inv:
  assumes "ports_inv r1 m"
  shows "ports_inv r1 (snd (main_step crcf oob (st, m)))"
proof (cases "pc m")
  case Reset
  then show ?thesis using assms by (auto simp: ports_inv_def ports_expected_def reset_step_def)
next
  case Flash_test
  then show ?thesis using assms
    by (auto simp: ports_inv_def ports_expected_def flash_test_step_def)
qed (use assms in \<open>auto simp: ports_inv_def ports_expected_def main_stmt_defs Let_def\<close>)


lemma ohc_reachable_ports_inv:
  "ohc_reachable crcf oob s \<Longrightarrow> ports_inv (io_setup ubrr use_2x r0) (main s)"
proof (induction rule: ohc_reachable.induct)
  case init
  show ?case by (simp add: ports_inv_def ohc_init_def main_reset_def)
next
  case (step s t)
  from step.hyps(2) show ?case
  proof cases
    case (isr b)
    then show ?thesis using step.IH by simp
  next
    case run
    then show ?thesis using step.IH main_step_ports_inv by (simp add: main_event_main)
  qed
qed

lemma ohc_entry_reachable: "ohc_reachable crcf oob ohc_entry"
  by (rule ohc_exec_reachable [OF ohc_exec_startup ohc_reachable.init])

lemma ohc_ports_setup:
  assumes "ohc_reachable crcf oob s" and "pc (main s) \<noteq> Reset"
  obtains tr where "ohc_ports ubrr use_2x r0 s = fold led_write tr (io_setup ubrr use_2x r0)"
  using assms by (simp add: ohc_ports_def)

subsection \<open>The register set-up\<close>

text \<open>C36: the set-up of lines 38--58 and 61 makes the green, blue and IR LED pins
  outputs (and only them), turns the IR LED off, switches off the analog comparator,
  moves the interrupt vectors to the boot section, sets the baud divisor, selects
  double speed exactly when \<^verbatim>\<open>USE_2X\<close>, selects 8-bit frames and enables the
  receiver, the transmitter and the receive interrupt; every other bit of the
  read-modify-written registers keeps its boot value, and \<^verbatim>\<open>tx_mask\<close> is the IR
  pin.\<close>

theorem io_setup_config:
  "DDRB (io_setup ubrr use_2x r0) = 6 \<and> DDRD (io_setup ubrr use_2x r0) = 12 \<and>
   MCUCR (io_setup ubrr use_2x r0) = 2 \<and> UBRR0 (io_setup ubrr use_2x r0) = ubrr \<and>
   tx_mask (io_setup ubrr use_2x r0) = ir_mask \<and> PORTB (io_setup ubrr use_2x r0) = PORTB r0 \<and>
   (\<forall>n. bit (PORTD (io_setup ubrr use_2x r0)) n \<longleftrightarrow> bit (PORTD r0) n \<and> n \<noteq> 3) \<and>
   (\<forall>n. bit (ACSR (io_setup ubrr use_2x r0)) n \<longleftrightarrow> bit (ACSR r0) n \<or> n = 7) \<and>
   (\<forall>n. bit (UCSR0A (io_setup ubrr use_2x r0)) n \<longleftrightarrow> (if n = 1 then use_2x else bit (UCSR0A r0) n)) \<and>
   (\<forall>n. bit (UCSR0B (io_setup ubrr use_2x r0)) n \<longleftrightarrow> bit (UCSR0B r0) n \<or> n \<in> {3, 4, 7}) \<and>
   (\<forall>n. bit (UCSR0C (io_setup ubrr use_2x r0)) n \<longleftrightarrow> bit (UCSR0C r0) n \<or> n \<in> {1, 2})"
  unfolding io_setup_eq
  by (simp add: bit_push_one bit_exp_iff possible_bit_word bit_with_bit bit_or_iff bit_and_iff bit_not_iff;
      auto simp: avr_bits dest: bit_imp_le_length)

subsection \<open>The LED ports in every reachable state\<close>

text \<open>C37: the LED port writes of the whole program, replayed on the registers, agree
  with the modelled indicator state. In every reachable state of the main loop the
  port registers are the set-up's, except that PORTD bit 2 (blue) is \<open>blue_on\<close> and
  PORTB bit 1 (green) is clear: the blue LED shows the toggle state, the green LED is
  off at every statement boundary, the IR LED (PORTD bit 3) stays off, and every
  other pin of the two ports keeps its boot value.\<close>

theorem leds_at_register_level:
  assumes "ohc_reachable crcf oob s" and "pc (main s) \<notin> startup_region"
  shows "ohc_ports ubrr use_2x r0 s =
           (io_setup ubrr use_2x r0)\<lparr>PORTB := PORTB r0 AND NOT green_mask,
              PORTD := with_bit (blue_on (main s)) blue_mask (PORTD r0 AND NOT ir_mask)\<rparr> \<and>
         (bit (PORTD (ohc_ports ubrr use_2x r0 s)) 2 \<longleftrightarrow> blue_on (main s)) \<and>
         \<not> bit (PORTD (ohc_ports ubrr use_2x r0 s)) 3 \<and> \<not> bit (PORTB (ohc_ports ubrr use_2x r0 s)) 1"
proof -
  have pc: "pc (main s) \<noteq> Reset" "pc (main s) \<noteq> Flash_test" "pc (main s) \<noteq> Flash_off"
    using assms(2) by (auto simp: startup_region_def)
  have eq: "ohc_ports ubrr use_2x r0 s =
           (io_setup ubrr use_2x r0)\<lparr>PORTB := PORTB r0 AND NOT green_mask,
              PORTD := with_bit (blue_on (main s)) blue_mask (PORTD r0 AND NOT ir_mask)\<rparr>"
    using ohc_reachable_ports_inv [OF assms(1), of ubrr use_2x r0] pc
    by (simp add: ports_inv_def ports_expected_def ohc_ports_def io_setup_eq with_bit_def)
  show ?thesis
    by (simp add: eq reg_bits bit_simps)
qed

theorem leds_at_register_level_witness:
  "ohc_ports 12 True
     \<lparr>DDRB = 0, DDRD = 0, PORTB = 255, PORTD = 255, ACSR = 0, MCUCR = 0, UBRR0 = 0, UCSR0A = 0,
       UCSR0B = 0, UCSR0C = 0, tx_mask = 0\<rparr> ohc_entry =
   (io_setup 12 True \<lparr>DDRB = 0, DDRD = 0, PORTB = 255, PORTD = 255, ACSR = 0, MCUCR = 0, UBRR0 = 0, UCSR0A = 0,
       UCSR0B = 0, UCSR0C = 0, tx_mask = 0\<rparr>)
     \<lparr>PORTB := 253, PORTD := 243\<rparr>"
  using leds_at_register_level [OF ohc_entry_reachable, of 12 True "\<lparr>DDRB = 0, DDRD = 0, PORTB = 255, PORTD = 255, ACSR = 0, MCUCR = 0, UBRR0 = 0, UCSR0A = 0, UCSR0B = 0, UCSR0C = 0, tx_mask = 0\<rparr>"]
  by (simp add: ohc_entry_facts startup_region_def main_init_def with_bit_def ir_mask_def blue_mask_def
      green_mask_def)


end
