(* ===== verification/Spec2Isabelle.thy ===== *)
theory Spec2Isabelle
  imports Dispatch_Spec Ports
begin

text \<open>
  \<^bold>\<open>Verification of \<^verbatim>\<open>src/ohc.c\<close>\<close>, the kilolib overhead controller: an AVR
  program whose receive interrupt self-synchronises on 132-byte frames by a rolling
  exclusive-or over a circular buffer, hands each frame to the main loop through a
  single-slot store, and whose main loop relays the frame over the infrared transport in
  one of six ways. The interrupt and the main loop share the store; the main loop
  disables interrupts around the boot-page and GPS relay loops.

  \<^bold>\<open>Theories and what they model.\<close>
  \<^item> \<open>OHC_Prelude\<close>: \<open>byte\<close> (\<^verbatim>\<open>uint8_t\<close> as \<open>8 word\<close>), the exclusive-or
    reduction \<open>xor_list\<close>, rotation and update lemmas, the collections
    \<open>ohc_consts\<close> (macro definitions), \<open>window_simps\<close> and \<open>reg_bits\<close>
    (the bit each I/O mask sets), and \<open>bit_push_one\<close> for \<^verbatim>\<open>(1<<k)\<close>.
  \<^item> \<open>Rx_Window\<close>: the detector half of \<^verbatim>\<open>ISR(USART_RX_vect)\<close> (lines
    151--168): record \<open>rx_window\<close> for \<^verbatim>\<open>packet_buffer\<close>, \<^verbatim>\<open>packet_head\<close>,
    \<^verbatim>\<open>packet_checksum\<close>; \<open>rx_shift\<close> (154--159), \<open>rx_synced\<close> (161--162), the copy
    loops \<open>copy_head\<close>/\<open>copy_wrap\<close> and \<open>rx_frame\<close> (163--168). Invariant
    \<open>rx_wf\<close>, abstraction \<open>win_list\<close> (oldest byte first), reachable windows
    \<open>rx_reachable\<close>.
  \<^item> \<open>Frame_Store\<close>: record \<open>frame_store\<close> (\<^verbatim>\<open>new_packet\<close>,
    \<^verbatim>\<open>packet_type\<close>, \<^verbatim>\<open>has_new_packet\<close>), \<open>store_publish\<close> (169--170),
    \<open>store_take\<close> (75--77), the whole interrupt \<open>usart_rx_isr\<close>; the abstract
    receiver \<open>abs_rx_step\<close> of the spec and the refinement \<open>rx_abs\<close>; \<open>rx_feed\<close>
    and \<open>rx_published\<close> run the interrupt over a byte stream; \<open>mk_frame\<close> is the
    sender's frame layout (spec section 6).
  \<^item> \<open>Message\<close>: \<^verbatim>\<open>message_t\<close> as 12 raw bytes, modelled from the spec and from its
    uses because \<^verbatim>\<open>message.h\<close> is not in the repository; \<^verbatim>\<open>memcpy\<close> as
    \<open>write_at\<close>; the observable events \<open>out_event\<close> (\<^verbatim>\<open>message_send\<close>, LED
    port writes). \<^verbatim>\<open>message_crc\<close> is the parameter \<open>crcf\<close> throughout.
  \<^item> \<open>Dispatcher\<close>: \<^verbatim>\<open>main()\<close> as a small-step machine: the power-on
    sequence (36--72: \<open>main_reset\<close>, \<open>reset_step\<close> for lines 36--65 up to
    \<^verbatim>\<open>sei()\<close> and \<^verbatim>\<open>i = 0\<close>, \<open>flash_test_step\<close>/\<open>flash_off_step\<close> for the
    blink loop) and the main loop (74--146). The program
    counter \<open>main_pc\<close> stops at every statement boundary where the interrupt may run;
    \<open>main_state\<close> holds \<^verbatim>\<open>i\<close>, \<^verbatim>\<open>leds_toggle\<close>, \<^verbatim>\<open>msg\<close>, the blue LED, the
    interrupt-enable bit and the event trace; one definition per statement
    (\<open>poll_step\<close>, \<open>clear_step\<close>, \<open>switch_step\<close>, \<open>led_toggle\<close>, the copy, test
    and send steps of the two message relays, \<open>boot_*_step\<close>, \<open>gps_*_step\<close>),
    composed by \<open>main_step\<close>. \<open>boot_sends\<close>, \<open>gps_fragment\<close> and \<open>gps_sends\<close>
    are reference descriptions of the two bounded loops. Every read of
    \<^verbatim>\<open>new_packet\<close> by the main loop (copy loops, boot-page and GPS loops) is
    \<open>np_read\<close>; the RAM after the array is the parameter \<open>oob\<close>.
    \<open>dispatch_run\<close> and \<open>forward_run\<close> are the runs of the machine from the flag
    test to the dispatch and through one FORWARDMSG relay iteration.
  \<^item> \<open>System\<close>: \<open>ohc_state\<close> (window, store, main state), the interleaving
    \<open>ohc_step\<close> of \<open>isr_event\<close> (only while interrupts are enabled) and
    \<open>main_event\<close>, \<open>ohc_reachable\<close> from power-on (\<open>ohc_init\<close>; \<open>ohc_entry\<close> is
    the state at line 74 when no byte arrived during the blink), schedules
    \<open>sched_event\<close> run by \<open>ohc_exec\<close>, and the program invariant \<open>ohc_inv\<close> with
    its preservation lemmas; \<open>ohc_exec_blind\<close> commutes received bytes with main
    steps that neither read nor write the frame store; \<open>main_rank\<close> bounds the steps
    from any statement to the next flag test (\<open>flag_tests\<close>) and decreases with
    every other step; \<open>exec_power_on_frame\<close> is the power-on sequence followed by the
    bytes of one complete frame.
  \<^item> \<open>Ports\<close>: the I/O registers at bit level: record \<open>io_regs\<close> (\<^verbatim>\<open>DDRB\<close>,
    \<^verbatim>\<open>DDRD\<close>, \<^verbatim>\<open>PORTB\<close>, \<^verbatim>\<open>PORTD\<close>, \<^verbatim>\<open>ACSR\<close>, \<^verbatim>\<open>MCUCR\<close>,
    \<^verbatim>\<open>UBRR0\<close>, \<^verbatim>\<open>UCSR0A/B/C\<close>, \<^verbatim>\<open>tx_mask\<close>), the pin macros of lines 28--33,
    \<^verbatim>\<open>port |= mask\<close> and \<^verbatim>\<open>port &= ~mask\<close> (\<open>port_or\<close>, \<open>port_andnot\<close>),
    the set-up of lines 38--61 (\<open>io_setup\<close>), the port write of each LED event
    (\<open>led_write\<close>) and \<open>ohc_ports\<close>, the register file of a program state (the
    set-up followed by the trace's port writes in order). The bit numbers of
    \<^verbatim>\<open><avr/io.h>\<close> are the ATmega328P's; the boot register values are a
    parameter \<open>r0\<close>.
  \<^item> \<open>Dispatch_Spec\<close>: the dispatcher of the spec (section 4.3) as an abstract
    machine \<open>spec_step\<close> over \<open>disp_spec\<close> (dispatcher state, FrameAvailable, frame
    type), with \<open>Startup\<close> for the bootstrap; \<open>pc_abs\<close> and \<open>disp_abs\<close> abstract the
    program state; the simulation lemmas \<open>isr_event_abs\<close> and \<open>main_event_abs\<close>
    and the refinement C30.
  \<^item> This theory: the properties that span the components.

  \<^bold>\<open>What is proved.\<close> The detector keeps its checksum invariant in every reachable
  window (C1) and refines the spec's abstract receiver, publishing exactly the synchronised
  oldest-first window (C2); its copy loops equal a rotation (C3); frames
  round-trip (C4), are published once from power-on (C5), latest wins (C6), never before
  132 bytes (C8), but a repeated frame can produce spurious rotated frames (C7). The
  dispatcher's boot-page loop is bounded (C9) and over-reads the frame (C10); the GPS
  loop stops as specified (C11) but ignores fresh frames (C12); the message relays
  cancel within one iteration (C13) and otherwise repeat (C14); toggling twice is the
  identity (C15); STOP frames do nothing (C16); lines 75--76 are the store's take (C17);
  the FORWARDMSG case builds its message from the first 10 payload bytes and
  message_crc and sends it (C22), the FORWARDRAWMSG case sends 12 payload bytes verbatim
  (C23).
  Across components: the program invariant (C18), the frozen frame inside the
  interrupt-disabled regions (C19), two races (C20, C21), the power-on sequence with bytes arriving during the
  blink (C24), a boot page cancelled by a frame arriving before its \<^verbatim>\<open>cli()\<close>
  (C25), progress: the main loop alone reaches a flag test within 60 steps (C26), and a
  FORWARDMSG frame relayed end to end from power-on (C27). The store is well typed in
  every reachable state: the type is byte 1 of the frame, and a raised flag announces a
  well-formed frame (C28); from power-on a frame with any single corrupted byte is
  never published (C29). The whole program refines the spec's dispatcher machine
  (C30). The boot-page messages, concatenated in the order sent, carry the 128 page
  bytes of the frame (C31); from power-on a BOOTPAGE frame is relayed end to end as 22
  page messages with address, offsets and page data, interrupts enabled again after
  (C32), and a GPS frame relayed end to end as one message per fragment up to the
  first zero id (C33). The memory after the 132-byte
  \<^verbatim>\<open>new_packet\<close> array influences a reachable step exactly in the last boot-page
  iteration: every other step reads inside the array (C34). A relay interrupted by two
  frames in a row dispatches only the later one (C35).
  At the level of the I/O registers: the set-up configures exactly the pins and UART
  bits it names and keeps every other bit (C36); in every reachable main-loop state the
  port registers carry the blue LED as \<open>blue_on\<close>, the green and IR LEDs off and
  the other pins at their boot values (C37).

  \<^bold>\<open>Bounds and fuel.\<close> No fuel is used: every loop of the source is either bounded
  (copy loops, boot-page and GPS loops: \<open>function\<close> with a measure, or the step machine
  run for the exact number of steps the theorems compute: 12 for the power-on sequence,
  23 for the boot-page loop, at most 19 for the GPS loop) or intentionally unbounded (the relay loops and the main
  loop itself), which the step machine represents by letting the environment choose how
  many steps run; C14 describes any number of iterations.

  \<^bold>\<open>Not modelled.\<close> \<^verbatim>\<open>_delay_ms\<close> (no state); the value of
  \<^verbatim>\<open>message_crc\<close> and the body of \<^verbatim>\<open>message_send\<close> (\<^verbatim>\<open>message.h\<close> and the
  kilolib transport are not in the repository: \<open>crcf\<close> is a parameter and a send is an
  event of the trace); the values \<^verbatim>\<open>UBRR_VALUE\<close> and \<^verbatim>\<open>USE_2X\<close>, which
  \<^verbatim>\<open><util/setbaud.h>\<close> derives from the build's \<^verbatim>\<open>F_CPU\<close> (parameters of
  \<open>io_setup\<close>); the hardware's reaction to register writes (the timed
  \<^verbatim>\<open>IVCE\<close>/\<^verbatim>\<open>IVSEL\<close> sequence is modelled as the two writes it is); the
  register set-up runs inside the one atomic \<open>reset_step\<close>, with interrupts disabled
  as in the code; the bootloader's handling of page writes; bytes
  lost by UART overrun while interrupts are disabled (a schedule that never delivers
  them describes it). \<^verbatim>\<open>has_new_packet\<close> is a \<open>bool\<close>: the source only stores 0 and 1.
\<close>

text \<open>C18: the invariant of the whole program. In every state reachable from power-on by
  any interleaving of received bytes and statements of \<^verbatim>\<open>main()\<close>, the receive
  checksum equals the XOR of the buffer, the head and the store are in range, the message
  is 12 bytes, the blue LED matches \<^verbatim>\<open>leds_toggle\<close> except while the power-on blink
  has it lit (and \<^verbatim>\<open>leds_toggle\<close> is still clear during start-up), interrupts are
  disabled exactly from reset to line 59 and inside the boot-page and GPS loops and their
  exits, and each 8-bit loop counter stays within its loop's range (so none wraps).\<close>

theorem program_invariant:
  assumes "ohc_reachable crcf oob s"
  shows "packet_checksum (win s) = xor_list (packet_buffer (win s)) \<and>
         unat (packet_head (win s)) < PACKET_SIZE \<and>
         length (new_packet (store s)) = PACKET_SIZE \<and>
         length (msg (main s)) = MSG_SIZE \<and>
         blue_on (main s) = (leds_toggle (main s) \<or> pc (main s) = Flash_off) \<and>
         (pc (main s) \<in> startup_region \<longrightarrow> \<not> leds_toggle (main s)) \<and>
         (int_enabled (main s) \<longleftrightarrow> pc (main s) \<notin> cli_region) \<and>
         counter_ok (pc (main s)) (unat (loop_i (main s)))"
  using ohc_reachable_inv [OF assms] by (simp add: ohc_inv_def main_inv_def rx_state_wf_def rx_wf_def)

theorem program_invariant_witness:
  "packet_checksum (win ohc_init) = xor_list (packet_buffer (win ohc_init)) \<and>
   pc (main ohc_init) \<in> startup_region \<and> \<not> leds_toggle (main ohc_init) \<and>
   (int_enabled (main ohc_init) \<longleftrightarrow> pc (main ohc_init) \<notin> cli_region)"
  using program_invariant [OF ohc_reachable.init] by (simp add: ohc_init_def main_reset_def startup_region_def)

text \<open>C19: the interrupt-disabled regions walk a frame nobody can overwrite: from any
  reachable state between \<^verbatim>\<open>cli()\<close> and \<^verbatim>\<open>sei()\<close> (start-up, boot-page and GPS
  loops), every step of the program leaves the receive window and the frame store
  unchanged.\<close>

theorem cli_region_frozen:
  assumes "ohc_reachable crcf oob s" and "pc (main s) \<in> cli_region" and "ohc_step crcf oob s t"
  shows "win t = win s \<and> store t = store s"
proof -
  have "\<not> int_enabled (main s)"
    using ohc_reachable_inv [OF assms(1)] assms(2) by (simp add: ohc_inv_def main_inv_def)
  with assms(3) have "t = main_event crcf oob s"
    by (cases rule: ohc_step.cases) simp_all
  moreover have "pc (main s) \<noteq> Clear"
    using assms(2) by (auto simp: cli_region_def)
  ultimately show ?thesis
    by (simp add: main_event_store)
qed

theorem cli_region_frozen_witness:
  "\<exists>s. ohc_reachable (\<lambda>_. 0) (\<lambda>_. 0) s \<and> pc (main s) = Boot_loop \<and>
       win (main_event (\<lambda>_. 0) (\<lambda>_. 0) s) = win s \<and> store (main_event (\<lambda>_. 0) (\<lambda>_. 0) s) = store s"
proof -
  obtain w st where ex: "ohc_exec (\<lambda>_. 0) (\<lambda>_. 0) (map Rx (mk_frame PACKET_BOOTPAGE (replicate 129 0))) ohc_entry =
        Some (ohc_entry\<lparr>win := w, store := st\<rparr>)"
    and st: "has_new_packet st" "packet_type st = PACKET_BOOTPAGE"
    using exec_frame [OF ohc_entry_facts(1,2), of "replicate 129 0" "\<lambda>_. 0" "\<lambda>_. 0" PACKET_BOOTPAGE] by auto
  let ?es = "replicate 12 Run @ map Rx (mk_frame PACKET_BOOTPAGE (replicate 129 0)) @ [Run, Run, Run, Run, Run]"
  obtain s where s: "ohc_exec (\<lambda>_. 0) (\<lambda>_. 0) ?es ohc_init = Some s"
    by (simp add: ohc_exec_append ohc_exec_startup ex)
  have r: "ohc_reachable (\<lambda>_. 0) (\<lambda>_. 0) s"
    using ohc_exec_reachable [OF s ohc_reachable.init] .
  have b: "pc (main s) = Boot_loop"
    using s ex st
    by (auto simp: ohc_exec_append ohc_exec_startup main_event_def ohc_entry_facts(4) main_init_def poll_step_def
        clear_step_def switch_step_def boot_hdr_step_def boot_cli_step_def Let_def ohc_consts)
  then have c: "pc (main s) \<in> cli_region" by (simp add: cli_region_def)
  show ?thesis
    using cli_region_frozen [OF r c ohc_step.run] r b by blast
qed

text \<open>C20: a frame published between the flag clear (line 76) and the type read
  (line 77) is dispatched twice. After power-on and a STOP frame, a LEDTOGGLE frame
  arriving at that point is read by the switch and, because its publication raised the
  flag again, read once more on the next pass: the LED is toggled twice and ends where it
  started, although one toggle frame was received.\<close>

theorem toggle_dispatched_twice:
  assumes "length p = 129"
  shows "\<exists>t. ohc_exec crcf oob (replicate 12 Run @ map Rx (mk_frame PACKET_STOP p) @ [Run, Run] @
                               map Rx (mk_frame PACKET_LEDTOGGLE p) @ [Run, Run, Run, Run]) ohc_init = Some t \<and>
             trace (main t) = power_on_trace @ [Blue True, Blue False] \<and>
             blue_on (main t) = blue_on (main ohc_entry) \<and>
             \<not> has_new_packet (store t) \<and> pc (main t) = Poll"
proof -
  let ?m0 = "main_init\<lparr>trace := power_on_trace\<rparr>"
  obtain w1 st1 where ex1: "ohc_exec crcf oob (map Rx (mk_frame PACKET_STOP p)) ohc_entry =
        Some (ohc_entry\<lparr>win := w1, store := st1\<rparr>)"
    and st1: "has_new_packet st1" "packet_type st1 = PACKET_STOP" "rx_state_wf (w1, st1)"
    using exec_frame [OF ohc_entry_facts(1,2) assms, of crcf oob PACKET_STOP] by auto
  let ?s2 = "ohc_entry\<lparr>win := w1, store := st1\<lparr>has_new_packet := False\<rparr>, main := ?m0\<lparr>pc := Switch\<rparr>\<rparr>"
  have ex2: "ohc_exec crcf oob [Run, Run] (ohc_entry\<lparr>win := w1, store := st1\<rparr>) = Some ?s2"
    using st1 by (simp add: main_event_def ohc_entry_facts(4) main_init_def poll_step_def clear_step_def)
  obtain w2 st2 where ex3: "ohc_exec crcf oob (map Rx (mk_frame PACKET_LEDTOGGLE p)) ?s2 =
        Some (?s2\<lparr>win := w2, store := st2\<rparr>)"
    and st2: "has_new_packet st2" "packet_type st2 = PACKET_LEDTOGGLE"
    using exec_frame [of ?s2 p crcf oob PACKET_LEDTOGGLE] st1(3) assms by (auto simp: main_init_def)
  have ex4: "ohc_exec crcf oob [Run, Run, Run, Run] (?s2\<lparr>win := w2, store := st2\<rparr>) =
        Some (?s2\<lparr>win := w2, store := st2\<lparr>has_new_packet := False\<rparr>,
                main := ?m0\<lparr>leds_toggle := False, blue_on := False, trace := power_on_trace @ [Blue True, Blue False]\<rparr>\<rparr>)"
    using st2 by (simp add: main_event_def main_init_def poll_step_def clear_step_def switch_step_def
        led_toggle_def Let_def ohc_consts)
  show ?thesis
    using ex1 ex2 ex3 ex4 by (simp add: ohc_exec_append ohc_exec_startup ohc_entry_facts(4) main_init_def)
qed

theorem toggle_dispatched_twice_witness:
  "\<exists>t. ohc_exec (\<lambda>_. 0) (\<lambda>_. 0) (replicate 12 Run @ map Rx (mk_frame PACKET_STOP (replicate 129 0)) @ [Run, Run] @
          map Rx (mk_frame PACKET_LEDTOGGLE (replicate 129 0)) @ [Run, Run, Run, Run]) ohc_init = Some t \<and>
       trace (main t) = power_on_trace @ [Blue True, Blue False] \<and> blue_on (main t) = blue_on (main ohc_entry)"
  using toggle_dispatched_twice [of "replicate 129 0" "\<lambda>_. 0" "\<lambda>_. 0"] by auto

text \<open>C21: a frame received after the GPS case is entered but before
  \<^verbatim>\<open>cli()\<close> (line 130) is relayed as GPS fragments whatever its type: here the payload
  of a FORWARDMSG frame goes out in a message of type \<^verbatim>\<open>GPS\<close>, and the
  FORWARDMSG frame is still pending for the next pass.\<close>

theorem gps_relays_foreign_frame:
  assumes "length p = 129" and "length q = 129" and "q ! 0 \<noteq> 0"
  shows "\<exists>t x. ohc_exec crcf oob (replicate 12 Run @ map Rx (mk_frame PACKET_GPSFRAME p) @ [Run, Run, Run, Run] @
                                 map Rx (mk_frame PACKET_FORWARDMSG q) @ [Run, Run]) ohc_init = Some t \<and>
               trace (main t) = power_on_trace @ [Sent x] \<and> take 7 x = take 7 q \<and> x ! MSG_TYPE = GPS \<and>
               has_new_packet (store t) \<and> packet_type (store t) = PACKET_FORWARDMSG"
proof -
  let ?mp = "main_init\<lparr>trace := power_on_trace\<rparr>"
  obtain w1 st1 where ex1: "ohc_exec crcf oob (map Rx (mk_frame PACKET_GPSFRAME p)) ohc_entry =
        Some (ohc_entry\<lparr>win := w1, store := st1\<rparr>)"
    and st1: "has_new_packet st1" "packet_type st1 = PACKET_GPSFRAME" "rx_state_wf (w1, st1)"
    using exec_frame [OF ohc_entry_facts(1,2) assms(1), of crcf oob PACKET_GPSFRAME] by auto
  let ?m0 = "(replicate MSG_SIZE 0)[MSG_TYPE := GPS, 7 := 0]"
  let ?s2 = "ohc_entry\<lparr>win := w1, store := st1\<lparr>has_new_packet := False\<rparr>,
                       main := ?mp\<lparr>pc := Gps_cli, msg := ?m0\<rparr>\<rparr>"
  have ex2: "ohc_exec crcf oob [Run, Run, Run, Run] (ohc_entry\<lparr>win := w1, store := st1\<rparr>) = Some ?s2"
    using st1 by (simp add: main_event_def ohc_entry_facts(4) main_init_def poll_step_def clear_step_def
        switch_step_def gps_hdr_step_def Let_def ohc_consts)
  obtain w2 st2 where ex3: "ohc_exec crcf oob (map Rx (mk_frame PACKET_FORWARDMSG q)) ?s2 =
        Some (?s2\<lparr>win := w2, store := st2\<rparr>)"
    and st2: "has_new_packet st2" "packet_type st2 = PACKET_FORWARDMSG" "new_packet st2 = mk_frame PACKET_FORWARDMSG q"
    using exec_frame [of ?s2 q crcf oob PACKET_FORWARDMSG] st1(3) assms(2) by (auto simp: main_init_def)
  let ?x = "set_crc crcf (write_at 0 (take 7 q) ?m0)"
  have frag: "map ((!) (new_packet st2)) [2..<9] = take 7 q"
    using st2(3) mk_frame_fragment0 [OF assms(2)] by simp
  have id: "write_at 0 (take 7 q) ?m0 ! 0 \<noteq> 0"
    using assms(2,3) by (simp add: write_at_eq nth_append ohc_consts)
  have ex4: "ohc_exec crcf oob [Run, Run] (?s2\<lparr>win := w2, store := st2\<rparr>) =
        Some (?s2\<lparr>win := w2, store := st2,
                main := ?mp\<lparr>pc := Gps_loop, msg := ?x, trace := power_on_trace @ [Sent ?x], loop_i := 9,
                                   int_enabled := False\<rparr>\<rparr>)"
    using frag id by (simp add: main_event_def main_init_def gps_cli_step_def gps_loop_step_def send_msg_def
        np_read_lt Let_def ohc_consts)
  have x: "take 7 ?x = take 7 q \<and> ?x ! MSG_TYPE = GPS"
    using assms(2) by (simp add: set_crc_def write_at_eq nth_append Let_def ohc_consts)
  show ?thesis
    using ex1 ex2 ex3 ex4 x st2 by (simp add: ohc_exec_append ohc_exec_startup ohc_entry_facts(4) main_init_def)
qed

theorem gps_relays_foreign_frame_witness:
  "\<exists>t x. ohc_exec (\<lambda>_. 0) (\<lambda>_. 0) (replicate 12 Run @ map Rx (mk_frame PACKET_GPSFRAME (replicate 129 0)) @
            [Run, Run, Run, Run] @ map Rx (mk_frame PACKET_FORWARDMSG (replicate 129 1)) @ [Run, Run]) ohc_init = Some t \<and>
         trace (main t) = power_on_trace @ [Sent x] \<and> take 7 x = take 7 (replicate 129 1) \<and> x ! MSG_TYPE = GPS"
  using gps_relays_foreign_frame [of "replicate 129 0" "replicate 129 1" "\<lambda>_. 0" "\<lambda>_. 0"] by auto

text \<open>C24: the power-on sequence. Whatever bytes arrive while the LEDs blink (after
  \<^verbatim>\<open>sei()\<close> at line 59), the main loop is entered after the 12 statements of
  lines 36--72 with \<^verbatim>\<open>i = 5\<close>, both LEDs off, interrupts enabled and the five blinks
  on the LED ports, and the receiver has processed every one of those bytes as it
  would from its power-on state.\<close>

theorem power_on_sequence:
  assumes "sched_runs es = 11"
  shows "ohc_exec crcf oob (Run # es) ohc_init =
           Some \<lparr>win = fst (rx_feed (sched_bytes es) rx_state_init),
                 store = snd (rx_feed (sched_bytes es) rx_state_init),
                 main = main_init\<lparr>trace := power_on_trace\<rparr>\<rparr>"
proof -
  define g where "g k = snd (main_run crcf oob k (frame_store_init, main_reset))" for k
  have g12: "g 12 = main_init\<lparr>trace := power_on_trace\<rparr>"
    using startup_run by (simp add: g_def)
  have s1: "ohc_exec crcf oob (Run # es) ohc_init = ohc_exec crcf oob es (ohc_init\<lparr>main := g 1\<rparr>)"
    by (simp add: g_def main_event_def Let_def ohc_init_def main_reset_def)
  let ?s1 = "ohc_init\<lparr>main := g 1\<rparr>"
  have "ohc_exec crcf oob es ?s1 =
          Some (?s1\<lparr>win := fst (rx_feed (sched_bytes es) (win ?s1, store ?s1)),
                  store := snd (rx_feed (sched_bytes es) (win ?s1, store ?s1)),
                  main := g (1 + sched_runs es)\<rparr>)"
  proof (rule ohc_exec_blind)
    fix k st
    assume "1 \<le> k" and "k < 1 + sched_runs es"
    then show "main_step crcf oob (st, g k) = (st, g (Suc k))"
      using assms startup_blind [of k crcf oob st frame_store_init] by (simp add: g_def)
  next
    fix k
    assume k: "1 \<le> k" and "k \<le> 1 + sched_runs es"
    then consider "k < 12" | "k = 12" using assms by linarith
    then show "int_enabled (g k)"
    proof cases
      case 1
      then show ?thesis using k startup_states [of k crcf oob frame_store_init] by (simp add: g_def)
    next
      case 2
      then show ?thesis using g12 by (simp add: main_init_def)
    qed
  qed simp
  then show ?thesis
    using s1 g12 assms by (simp add: ohc_init_def rx_state_init_def)
qed

theorem power_on_sequence_witness:
  "sched_runs [Run, Rx 0x55, Run, Run, Run, Run, Run, Run, Run, Run, Run, Run] = 11 \<and>
   ohc_exec (\<lambda>_. 0) (\<lambda>_. 0) [Run, Run, Rx 0x55, Run, Run, Run, Run, Run, Run, Run, Run, Run, Run] ohc_init =
     Some \<lparr>win = fst (rx_feed [0x55] rx_state_init), store = snd (rx_feed [0x55] rx_state_init),
           main = main_init\<lparr>trace := power_on_trace\<rparr>\<rparr>"
  using power_on_sequence [of "[Run, Rx 0x55, Run, Run, Run, Run, Run, Run, Run, Run, Run, Run]" "\<lambda>_. 0" "\<lambda>_. 0"]
  by simp

text \<open>C25: a frame received after the switch has entered the
  \<^verbatim>\<open>PACKET_BOOTPAGE\<close> case but before its \<^verbatim>\<open>cli()\<close> (line 114) cancels the boot
  page: the header step already reads the page address from the new frame, the loop
  guard \<^verbatim>\<open>!has_new_packet\<close> fails at once, and the case ends with the green pulse
  of a completed page although no message was sent; the new frame stays pending.\<close>

theorem boot_page_skipped:
  assumes "length p = 129" and "length q = 129"
  shows "\<exists>t. ohc_exec crcf oob (replicate 12 Run @ map Rx (mk_frame PACKET_BOOTPAGE p) @ [Run, Run, Run] @
                               map Rx (mk_frame ty q) @ [Run, Run, Run, Run]) ohc_init = Some t \<and>
             trace (main t) = power_on_trace @ [Green True, Green False] \<and>
             msg (main t) ! 0 = q ! 0 \<and> pc (main t) = Poll \<and> int_enabled (main t) \<and>
             has_new_packet (store t) \<and> packet_type (store t) = ty"
proof -
  let ?mp = "main_init\<lparr>trace := power_on_trace\<rparr>"
  obtain w1 st1 where ex1: "ohc_exec crcf oob (map Rx (mk_frame PACKET_BOOTPAGE p)) ohc_entry =
        Some (ohc_entry\<lparr>win := w1, store := st1\<rparr>)"
    and st1: "has_new_packet st1" "packet_type st1 = PACKET_BOOTPAGE" "rx_state_wf (w1, st1)"
    using exec_frame [OF ohc_entry_facts(1,2) assms(1), of crcf oob PACKET_BOOTPAGE] by auto
  let ?s2 = "ohc_entry\<lparr>win := w1, store := st1\<lparr>has_new_packet := False\<rparr>, main := ?mp\<lparr>pc := Boot_hdr\<rparr>\<rparr>"
  have ex2: "ohc_exec crcf oob [Run, Run, Run] (ohc_entry\<lparr>win := w1, store := st1\<rparr>) = Some ?s2"
    using st1 by (simp add: main_event_def ohc_entry_facts(4) main_init_def poll_step_def clear_step_def
        switch_step_def Let_def ohc_consts)
  obtain w2 st2 where ex3: "ohc_exec crcf oob (map Rx (mk_frame ty q)) ?s2 = Some (?s2\<lparr>win := w2, store := st2\<rparr>)"
    and st2: "has_new_packet st2" "packet_type st2 = ty" "new_packet st2 = mk_frame ty q"
    using exec_frame [of ?s2 q crcf oob ty] st1(3) assms(2) by (auto simp: main_init_def)
  let ?x = "(replicate MSG_SIZE 0)[MSG_TYPE := BOOTPGM_PAGE, 0 := new_packet st2 ! 2, 8 := 0]"
  have ex4: "ohc_exec crcf oob [Run, Run, Run, Run] (?s2\<lparr>win := w2, store := st2\<rparr>) =
        Some (?s2\<lparr>win := w2, store := st2,
                main := ?mp\<lparr>pc := Poll, msg := ?x, loop_i := 0, trace := power_on_trace @ [Green True, Green False]\<rparr>\<rparr>)"
    using st2(1) by (simp add: main_event_def main_init_def boot_hdr_step_def boot_cli_step_def boot_loop_step_def
        boot_done_step_def green_pulse_def Let_def)
  have x: "?x ! 0 = q ! 0"
    using st2(3) assms(2) by (simp add: mk_frame_def nth_append ohc_consts)
  show ?thesis
    using ex1 ex2 ex3 ex4 x st2 by (simp add: ohc_exec_append ohc_exec_startup ohc_entry_facts(4) main_init_def)
qed

theorem boot_page_skipped_witness:
  "\<exists>t. ohc_exec (\<lambda>_. 0) (\<lambda>_. 0) (replicate 12 Run @ map Rx (mk_frame PACKET_BOOTPAGE (replicate 129 0)) @
          [Run, Run, Run] @ map Rx (mk_frame PACKET_STOP (replicate 129 7)) @ [Run, Run, Run, Run]) ohc_init = Some t \<and>
       trace (main t) = power_on_trace @ [Green True, Green False] \<and> msg (main t) ! 0 = 7"
  using boot_page_skipped [of "replicate 129 0" "replicate 129 7" "\<lambda>_. 0" "\<lambda>_. 0" PACKET_STOP] by auto

text \<open>C26: progress. From every reachable state, the main loop running on its own
  (no byte received) reaches a flag test, that of line 75 or that of one of the two
  message relay loops, within 60 steps: the start-up sequence, the copy loops, the
  boot-page and GPS loops and every other statement sequence terminate, and only the
  relay loops and the idle loop can wait for a frame.\<close>

theorem main_loop_progress:
  assumes "ohc_reachable crcf oob s"
  shows "\<exists>k \<le> 60. pc (snd (main_run crcf oob k (store s, main s))) \<in> {Poll, Fwd_test, Raw_test}"
proof -
  have "main_inv (main s)"
    using ohc_reachable_inv [OF assms] by (simp add: ohc_inv_def)
  then obtain k where "k \<le> main_rank (main s)" and "pc (snd (main_run crcf oob k (store s, main s))) \<in> flag_tests"
    using main_reaches_flag_test by blast
  moreover have "k \<le> 60"
    using \<open>k \<le> main_rank (main s)\<close> main_rank_le [of "main s"] by linarith
  ultimately show ?thesis
    unfolding flag_tests_def by blast
qed

theorem main_loop_progress_witness:
  "\<exists>k \<le> 60. pc (snd (main_run (\<lambda>_. 0) (\<lambda>_. 0) k (store ohc_init, main ohc_init))) \<in> {Poll, Fwd_test, Raw_test}"
  using main_loop_progress [OF ohc_reachable.init] .

text \<open>C27: end to end, a FORWARDMSG frame is relayed. After power-on, the bytes of
  a FORWARDMSG frame with payload \<open>p\<close> followed by 17 main-loop steps produce exactly
  one transmission, of the message made of the first 10 payload bytes and its
  \<^verbatim>\<open>message_crc\<close>, with its green pulse; the frame has been consumed and the relay
  loop is at its flag test, ready to send again.\<close>

theorem forward_end_to_end:
  assumes "length p = 129"
  shows "\<exists>t. ohc_exec crcf oob (replicate 12 Run @ map Rx (mk_frame PACKET_FORWARDMSG p) @ replicate 17 Run)
                ohc_init = Some t \<and>
             trace (main t) = power_on_trace @ [Sent (set_crc crcf (take 10 p @ [0, 0])), Green True, Green False] \<and>
             pc (main t) = Fwd_test \<and> \<not> has_new_packet (store t)"
proof -
  obtain w st where ex: "\<And>es. ohc_exec crcf oob (replicate 12 Run @ map Rx (mk_frame PACKET_FORWARDMSG p) @ es) ohc_init =
        ohc_exec crcf oob es (ohc_entry\<lparr>win := w, store := st\<rparr>)"
    and st: "has_new_packet st" "packet_type st = PACKET_FORWARDMSG" "new_packet st = mk_frame PACKET_FORWARDMSG p"
    using exec_power_on_frame [OF assms] by metis
  let ?mp = "main_init\<lparr>trace := power_on_trace\<rparr>"
  let ?x = "set_crc crcf (take 10 p @ [0, 0])"
  have x: "set_crc crcf (take 10 (drop 2 (new_packet st)) @ drop 10 (msg ?mp)) = ?x"
    using st(3) assms by (simp add: mk_frame_def main_init_def numeral_2_eq_2 ohc_consts)
  have "main_run crcf oob 17 (st, ?mp) =
          (st\<lparr>has_new_packet := False\<rparr>,
           ?mp\<lparr>pc := Fwd_test, loop_i := 10, msg := ?x, trace := power_on_trace @ [Sent ?x, Green True, Green False]\<rparr>)"
    using forward_run [of ?mp st crcf oob] st assms x by (simp add: main_init_def mk_frame_def Let_def ohc_consts)
  then show ?thesis
    using ex ohc_exec_runs [of crcf oob 17 "ohc_entry\<lparr>win := w, store := st\<rparr>"] by (simp add: ohc_entry_facts(4))
qed

theorem forward_end_to_end_witness:
  "\<exists>t. ohc_exec (\<lambda>_. 0) (\<lambda>_. 0) (replicate 12 Run @ map Rx (mk_frame PACKET_FORWARDMSG (replicate 129 9)) @
          replicate 17 Run) ohc_init = Some t \<and>
       trace (main t) = power_on_trace @ [Sent (set_crc (\<lambda>_. 0) (replicate 10 9 @ [0, 0])), Green True, Green False]"
  using forward_end_to_end [of "replicate 129 9" "\<lambda>_. 0" "\<lambda>_. 0"] by auto

text \<open>C28: the type of the frame store. In every reachable state
  \<^verbatim>\<open>packet_type\<close> is byte 1 of \<^verbatim>\<open>new_packet\<close>, and whenever
  \<^verbatim>\<open>has_new_packet\<close> is raised \<^verbatim>\<open>new_packet\<close> holds a well-formed frame: 132 bytes,
  the header \<open>0x55\<close> first, exclusive-or zero. The switch of line 77 therefore always
  dispatches on the type byte of the frame in the store.\<close>

theorem store_well_typed:
  assumes "ohc_reachable crcf oob s"
  shows "packet_type (store s) = new_packet (store s) ! 1 \<and>
         (has_new_packet (store s) \<longrightarrow>
            length (new_packet (store s)) = PACKET_SIZE \<and> hd (new_packet (store s)) = PACKET_HEADER \<and>
            xor_list (new_packet (store s)) = 0)"
  using ohc_reachable_typed [OF assms] by (simp add: store_typed_def valid_frame_def)

theorem store_well_typed_witness:
  "\<exists>s. ohc_reachable (\<lambda>_. 0) (\<lambda>_. 0) s \<and> has_new_packet (store s) \<and>
       packet_type (store s) = new_packet (store s) ! 1 \<and> hd (new_packet (store s)) = PACKET_HEADER \<and>
       xor_list (new_packet (store s)) = 0"
proof -
  obtain w st where ex: "ohc_exec (\<lambda>_. 0) (\<lambda>_. 0) (map Rx (mk_frame PACKET_LEDTOGGLE (replicate 129 3))) ohc_entry =
        Some (ohc_entry\<lparr>win := w, store := st\<rparr>)" and st: "has_new_packet st"
    using exec_frame [OF ohc_entry_facts(1,2), of "replicate 129 3" "\<lambda>_. 0" "\<lambda>_. 0" PACKET_LEDTOGGLE] by auto
  have "ohc_exec (\<lambda>_. 0) (\<lambda>_. 0) (replicate 12 Run @ map Rx (mk_frame PACKET_LEDTOGGLE (replicate 129 3))) ohc_init =
          Some (ohc_entry\<lparr>win := w, store := st\<rparr>)"
    using ex by (simp add: ohc_exec_append ohc_exec_startup)
  then have r: "ohc_reachable (\<lambda>_. 0) (\<lambda>_. 0) (ohc_entry\<lparr>win := w, store := st\<rparr>)"
    using ohc_exec_reachable ohc_reachable.init by blast
  show ?thesis
    using store_well_typed [OF r] r st by auto
qed

text \<open>C32: end to end, a boot page is relayed. After power-on, the bytes of a
  BOOTPAGE frame with payload \<open>p\<close> followed by 29 main-loop steps produce 22 messages
  of type \<^verbatim>\<open>BOOTPGM_PAGE\<close>, each carrying the page address \<open>p ! 0\<close>, with page
  offsets \<open>0, 3, \<dots>, 63\<close>, whose data fields carry the 128 page bytes \<open>drop 1 p\<close> in
  order, then the green pulse; the main loop is back at line 75 with interrupts enabled
  again.\<close>

theorem boot_page_end_to_end:
  assumes "length p = 129"
  shows "\<exists>t xs. ohc_exec crcf oob (replicate 12 Run @ map Rx (mk_frame PACKET_BOOTPAGE p) @ replicate 29 Run)
                   ohc_init = Some t \<and>
               trace (main t) = power_on_trace @ map Sent xs @ [Green True, Green False] \<and> length xs = 22 \<and>
               (\<forall>x\<in>set xs. x ! 0 = p ! 0 \<and> x ! MSG_TYPE = BOOTPGM_PAGE) \<and>
               map (\<lambda>x. x ! 1) xs = map (\<lambda>n. of_nat (3 * n)) [0..<22] \<and>
               take SPM_PAGESIZE (concat (map (\<lambda>x. take 6 (drop 2 x)) xs)) = drop 1 p \<and>
               pc (main t) = Poll \<and> int_enabled (main t)"
proof -
  obtain w st where ex1: "ohc_exec crcf oob (map Rx (mk_frame PACKET_BOOTPAGE p)) ohc_entry =
        Some (ohc_entry\<lparr>win := w, store := st\<rparr>)"
    and st: "has_new_packet st" "packet_type st = PACKET_BOOTPAGE" "new_packet st = mk_frame PACKET_BOOTPAGE p"
    using exec_frame [OF ohc_entry_facts(1,2) assms, of crcf oob PACKET_BOOTPAGE] by auto
  let ?mp = "main_init\<lparr>trace := power_on_trace\<rparr>"
  let ?st0 = "st\<lparr>has_new_packet := False\<rparr>"
  let ?M0 = "(msg ?mp)[MSG_TYPE := BOOTPGM_PAGE, 0 := new_packet st ! 2, 8 := 0]"
  let ?m5 = "?mp\<lparr>msg := ?M0, pc := Boot_loop, int_enabled := False, loop_i := 0\<rparr>"
  let ?xs = "boot_sends crcf oob ?st0 0 22 ?M0"
  let ?m28 = "?m5\<lparr>pc := Boot_done, loop_i := 132, msg := last (?M0 # ?xs), trace := power_on_trace @ map Sent ?xs\<rparr>"
  let ?m29 = "?m28\<lparr>int_enabled := True, trace := power_on_trace @ map Sent ?xs @ [Green True, Green False], pc := Poll\<rparr>"
  have r3: "main_run crcf oob 3 (st, ?mp) = (?st0, ?mp\<lparr>pc := Boot_hdr\<rparr>)"
    using st(1,2) by (simp add: numeral_3_eq_3 main_init_def poll_step_def clear_step_def switch_step_def
        Let_def ohc_consts)
  have r2: "main_run crcf oob 2 (?st0, ?mp\<lparr>pc := Boot_hdr\<rparr>) = (?st0, ?m5)"
    by (simp add: numeral_2_eq_2 boot_hdr_step_def boot_cli_step_def)
  have r23: "main_run crcf oob 23 (?st0, ?m5) = (?st0, ?m28)"
    using boot_page_run [of ?m5 ?st0 crcf oob] by simp
  have r1: "main_run crcf oob 1 (?st0, ?m28) = (?st0, ?m29)"
    by (simp add: boot_done_step_def green_pulse_def)
  have "main_run crcf oob 29 (st, ?mp) = (?st0, ?m29)"
    using r3 r2 r23 r1 main_run_add [of crcf oob 3 2 "(st, ?mp)"] main_run_add [of crcf oob 5 23 "(st, ?mp)"]
      main_run_add [of crcf oob 28 1 "(st, ?mp)"]
    by simp
  then have ex2: "ohc_exec crcf oob (replicate 29 Run) (ohc_entry\<lparr>win := w, store := st\<rparr>) =
                    Some (ohc_entry\<lparr>win := w, store := ?st0, main := ?m29\<rparr>)"
    using ohc_exec_runs [of crcf oob 29 "ohc_entry\<lparr>win := w, store := st\<rparr>"] by (simp add: ohc_entry_facts(4))
  have lenM: "length ?M0 = MSG_SIZE" by (simp add: main_init_def)
  have lenp: "length (new_packet ?st0) = PACKET_SIZE" using st(3) assms by (simp add: mk_frame_def ohc_consts)
  have keep: "\<forall>x\<in>set ?xs. x ! 0 = p ! 0 \<and> x ! MSG_TYPE = BOOTPGM_PAGE"
  proof
    fix x assume "x \<in> set ?xs"
    then have "x ! 0 = ?M0 ! 0 \<and> x ! MSG_TYPE = ?M0 ! MSG_TYPE" using lenM by (intro boot_sends_keeps)
    then show "x ! 0 = p ! 0 \<and> x ! MSG_TYPE = BOOTPGM_PAGE"
      using st(3) assms by (simp add: main_init_def mk_frame_def nth_append ohc_consts)
  qed
  have offs: "map (\<lambda>x. x ! 1) ?xs = map (\<lambda>n. of_nat (3 * n)) [0..<22]"
    using boot_sends_offsets [OF lenM, of 0 22 crcf oob ?st0] by simp
  have page: "take SPM_PAGESIZE (concat (map (\<lambda>x. take 6 (drop 2 x)) ?xs)) = drop 1 p"
    using boot_sends_page [OF lenM lenp, of crcf oob] st(3) assms by (simp add: mk_frame_def ohc_consts)
  have "ohc_exec crcf oob (replicate 12 Run @ map Rx (mk_frame PACKET_BOOTPAGE p) @ replicate 29 Run) ohc_init =
          Some (ohc_entry\<lparr>win := w, store := ?st0, main := ?m29\<rparr>)"
    using ex1 ex2 by (simp add: ohc_exec_append ohc_exec_startup)
  then show ?thesis
    using keep offs page by (intro exI [of _ "ohc_entry\<lparr>win := w, store := ?st0, main := ?m29\<rparr>"] exI [of _ ?xs]) simp
qed

theorem boot_page_end_to_end_witness:
  "\<exists>t xs. ohc_exec (\<lambda>_. 0) (\<lambda>_. 0) (replicate 12 Run @ map Rx (mk_frame PACKET_BOOTPAGE (replicate 129 5)) @
            replicate 29 Run) ohc_init = Some t \<and>
          trace (main t) = power_on_trace @ map Sent xs @ [Green True, Green False] \<and> length xs = 22 \<and>
          (\<forall>x\<in>set xs. x ! 0 = 5)"
  using boot_page_end_to_end [of "replicate 129 5" "\<lambda>_. 0" "\<lambda>_. 0"] by fastforce

text \<open>C33: end to end, a GPS frame is relayed. After power-on, the bytes of a GPSFRAME
  frame with payload \<open>p\<close> followed by \<open>7 + n\<close> main-loop steps, \<open>n\<close> the number of
  messages, produce one message of type \<^verbatim>\<open>GPS\<close> per 7-byte fragment of the payload
  up to the first fragment whose \<open>id\<close> is zero (at most 18), each carrying its
  fragment, then the green pulse; the main loop is back at line 75 with interrupts
  enabled again.\<close>

theorem gps_end_to_end:
  assumes "length p = 129"
  shows "\<exists>t xs. ohc_exec crcf oob (replicate 12 Run @ map Rx (mk_frame PACKET_GPSFRAME p) @
                                   replicate (7 + length xs) Run) ohc_init = Some t \<and>
               trace (main t) = power_on_trace @ map Sent xs @ [Green True, Green False] \<and>
               map (take 7) xs = takeWhile (\<lambda>f. f ! 0 \<noteq> 0) (map (\<lambda>j. take 7 (drop (7 * j) p)) [0..<18]) \<and>
               (\<forall>x\<in>set xs. x ! MSG_TYPE = GPS) \<and> pc (main t) = Poll \<and> int_enabled (main t)"
proof -
  obtain w st where ex: "\<And>es. ohc_exec crcf oob (replicate 12 Run @ map Rx (mk_frame PACKET_GPSFRAME p) @ es) ohc_init =
        ohc_exec crcf oob es (ohc_entry\<lparr>win := w, store := st\<rparr>)"
    and st: "has_new_packet st" "packet_type st = PACKET_GPSFRAME" "new_packet st = mk_frame PACKET_GPSFRAME p"
    using exec_power_on_frame [OF assms] by metis
  let ?mp = "main_init\<lparr>trace := power_on_trace\<rparr>"
  let ?st0 = "st\<lparr>has_new_packet := False\<rparr>"
  let ?m5 = "?mp\<lparr>msg := (msg ?mp)[MSG_TYPE := GPS, 7 := 0], pc := Gps_loop, int_enabled := False, loop_i := 2\<rparr>"
  let ?xs = "gps_sends crcf ?st0 0 18 (msg ?m5)"
  define n where "n = length ?xs"
  have r3: "main_run crcf oob 3 (st, ?mp) = (?st0, ?mp\<lparr>pc := Gps_hdr\<rparr>)"
    using dispatch_run [of ?mp st crcf oob] st(1,2) by (simp add: main_init_def switch_step_def Let_def ohc_consts)
  have r5: "main_run crcf oob (3 + 2) (st, ?mp) = (?st0, ?m5)"
    using r3 main_run_add [of crcf oob 3 2 "(st, ?mp)"]
    by (simp add: numeral_2_eq_2 gps_hdr_step_def gps_cli_step_def)
  have lenM: "length (msg ?m5) = MSG_SIZE" by (simp add: main_init_def)
  have g: "fst (main_run crcf oob (Suc n) (?st0, ?m5)) = ?st0 \<and>
           pc (snd (main_run crcf oob (Suc n) (?st0, ?m5))) = Gps_done \<and>
           trace (snd (main_run crcf oob (Suc n) (?st0, ?m5))) = trace ?m5 @ map Sent ?xs"
    using gps_loop_run [of 0 18 ?m5 crcf oob ?st0] lenM unfolding n_def by simp
  define m' where "m' = snd (main_run crcf oob (Suc n) (?st0, ?m5))"
  have m': "main_run crcf oob (Suc n) (?st0, ?m5) = (?st0, m')" and "pc m' = Gps_done"
    and tr: "trace m' = power_on_trace @ map Sent ?xs"
    using g unfolding m'_def by (simp_all add: prod_eq_iff)
  then have r1: "main_run crcf oob 1 (?st0, m') =
                   (?st0, m'\<lparr>int_enabled := True, trace := trace m' @ [Green True, Green False], pc := Poll\<rparr>)"
    by (simp add: gps_done_step_def green_pulse_def)
  have "main_run crcf oob (7 + n) (st, ?mp) =
          (?st0, m'\<lparr>int_enabled := True, trace := trace m' @ [Green True, Green False], pc := Poll\<rparr>)"
    using r5 m' r1 main_run_add [of crcf oob "3 + 2" "Suc n" "(st, ?mp)"]
      main_run_add [of crcf oob "3 + 2 + Suc n" 1 "(st, ?mp)"]
    by simp
  then have run: "ohc_exec crcf oob (replicate 12 Run @ map Rx (mk_frame PACKET_GPSFRAME p) @ replicate (7 + n) Run) ohc_init =
      Some (ohc_entry\<lparr>win := w, store := ?st0,
              main := m'\<lparr>int_enabled := True, trace := trace m' @ [Green True, Green False], pc := Poll\<rparr>\<rparr>)"
    using ex ohc_exec_runs [of crcf oob "7 + n" "ohc_entry\<lparr>win := w, store := st\<rparr>"] by (simp add: ohc_entry_facts(4))
  have frags: "map (take 7) ?xs = takeWhile (\<lambda>f. f ! 0 \<noteq> 0) (map (\<lambda>j. take 7 (drop (7 * j) p)) [0..<18])"
    using gps_sends_fragments [OF lenM, of crcf ?st0 0 18] gps_fragments_frame [of ?st0 PACKET_GPSFRAME p] st(3) assms
    by simp
  have types: "\<forall>x\<in>set ?xs. x ! MSG_TYPE = GPS"
    using gps_sends_type [OF lenM, of _ crcf ?st0 0 18] by (simp add: main_init_def ohc_consts)
  show ?thesis
    using run tr frags types unfolding n_def
    by (intro exI [of _ "ohc_entry\<lparr>win := w, store := ?st0,
              main := m'\<lparr>int_enabled := True, trace := trace m' @ [Green True, Green False], pc := Poll\<rparr>\<rparr>"]
        exI [of _ ?xs]) simp
qed

theorem gps_end_to_end_witness:
  "\<exists>t. ohc_exec (\<lambda>_. 0) (\<lambda>_. 0) (replicate 12 Run @ map Rx (mk_frame PACKET_GPSFRAME (replicate 129 0)) @
          replicate 7 Run) ohc_init = Some t \<and> trace (main t) = power_on_trace @ [Green True, Green False]"
proof -
  have len: "length (replicate 129 (0::byte)) = 129" by simp
  obtain t xs where ex: "ohc_exec (\<lambda>_. 0) (\<lambda>_. 0) (replicate 12 Run @ map Rx (mk_frame PACKET_GPSFRAME (replicate 129 0)) @
          replicate (7 + length xs) Run) ohc_init = Some t"
    and tr: "trace (main t) = power_on_trace @ map Sent xs @ [Green True, Green False]"
    and fr: "map (take 7) xs = takeWhile (\<lambda>f. f ! 0 \<noteq> 0) (map (\<lambda>j. take 7 (drop (7 * j) (replicate 129 (0::byte)))) [0..<18])"
    using gps_end_to_end [OF len, of "\<lambda>_. 0" "\<lambda>_. 0"] by blast
  have "xs = []" using fr by (simp add: upt_conv_Cons del: upt.simps)
  then show ?thesis using ex tr by auto
qed

text \<open>C34: memory past the frame. Of all the steps of the program, exactly the last
  iteration of the boot-page loop (counter 126, no fresh frame) has a result that
  depends on the memory after the 132-byte \<^verbatim>\<open>new_packet\<close> array: in every other
  reachable state the copy loops (lines 89, 101), the GPS loop (line 132) and the
  boot-page loop (line 117) read inside the array, so the step is the same whatever
  that memory holds; in the last boot-page iteration it is not.\<close>

theorem reads_past_frame_only_last_boot:
  assumes "ohc_reachable crcf oob s"
  shows "(\<forall>oob'. main_event crcf oob' s = main_event crcf oob s) \<longleftrightarrow>
         \<not> (pc (main s) = Boot_loop \<and> unat (loop_i (main s)) = 126 \<and> \<not> has_new_packet (store s))"
proof
  assume all: "\<forall>oob'. main_event crcf oob' s = main_event crcf oob s"
  show "\<not> (pc (main s) = Boot_loop \<and> unat (loop_i (main s)) = 126 \<and> \<not> has_new_packet (store s))"
  proof
    assume c: "pc (main s) = Boot_loop \<and> unat (loop_i (main s)) = 126 \<and> \<not> has_new_packet (store s)"
    have len: "length (msg (main s)) = MSG_SIZE"
      using ohc_reachable_inv [OF assms] by (simp add: ohc_inv_def main_inv_def)
    let ?oob = "\<lambda>k. oob k + 1"
    have "main_event crcf ?oob s = main_event crcf oob s"
      using all by (rule spec)
    then have "msg (main (main_event crcf ?oob s)) = msg (main (main_event crcf oob s))"
      by (rule arg_cong)
    then have "map (np_read ?oob (store s)) [129..<135] = map (np_read oob (store s)) [129..<135]"
      using main_step_last_boot_read [where m = "main s" and st = "store s"] c len
      by (metis main_event_main)
    then show False
      by (simp add: np_read_def ohc_consts)
  qed
next
  assume nc: "\<not> (pc (main s) = Boot_loop \<and> unat (loop_i (main s)) = 126 \<and> \<not> has_new_packet (store s))"
  have inv: "main_inv (main s)"
    using ohc_reachable_inv [OF assms] by (simp add: ohc_inv_def)
  have step: "\<And>oob'. main_step crcf oob' (store s, main s) = main_step crcf oob (store s, main s)"
    using inv nc by (rule main_step_oob)
  show "\<forall>oob'. main_event crcf oob' s = main_event crcf oob s"
  proof
    fix oob'
    show "main_event crcf oob' s = main_event crcf oob s"
      by (simp only: main_event_def step [of oob'])
  qed
qed

theorem reads_past_frame_only_last_boot_witness:
  "\<exists>s. ohc_reachable (\<lambda>_. 0) (\<lambda>_. 0) s \<and>
       \<not> (\<forall>oob'. main_event (\<lambda>_. 0) oob' s = main_event (\<lambda>_. 0) (\<lambda>_. 0) s)"
proof -
  have len: "length (replicate 129 (0::byte)) = 129" by simp
  obtain w st where ex: "\<And>es. ohc_exec (\<lambda>_. 0) (\<lambda>_. 0) (replicate 12 Run @ map Rx (mk_frame PACKET_BOOTPAGE (replicate 129 0)) @ es) ohc_init =
        ohc_exec (\<lambda>_. 0) (\<lambda>_. 0) es (ohc_entry\<lparr>win := w, store := st\<rparr>)"
    and st: "has_new_packet st" "packet_type st = PACKET_BOOTPAGE" "new_packet st = mk_frame PACKET_BOOTPAGE (replicate 129 0)"
    using exec_power_on_frame [OF len] by metis
  let ?mp = "main_init\<lparr>trace := power_on_trace\<rparr>"
  let ?st0 = "st\<lparr>has_new_packet := False\<rparr>"
  let ?m5 = "?mp\<lparr>msg := (msg ?mp)[MSG_TYPE := BOOTPGM_PAGE, 0 := new_packet st ! 2, 8 := 0], pc := Boot_loop,
                   int_enabled := False, loop_i := 0\<rparr>"
  have r3: "main_run (\<lambda>_. 0) (\<lambda>_. 0) 3 (st, ?mp) = (?st0, ?mp\<lparr>pc := Boot_hdr\<rparr>)"
    using dispatch_run [of ?mp st "\<lambda>_. 0" "\<lambda>_. 0"] st(1,2) by (simp add: main_init_def switch_step_def Let_def ohc_consts)
  have r5: "main_run (\<lambda>_. 0) (\<lambda>_. 0) (3 + 2) (st, ?mp) = (?st0, ?m5)"
    using r3 main_run_add [of "\<lambda>_. 0" "\<lambda>_. 0" 3 2 "(st, ?mp)"]
    by (simp add: numeral_2_eq_2 boot_hdr_step_def boot_cli_step_def)
  obtain m' where r21: "main_run (\<lambda>_. 0) (\<lambda>_. 0) 21 (?st0, ?m5) = (?st0, m')"
    and m': "pc m' = Boot_loop" "loop_i m' = of_nat 126"
    using boot_loop_iter [of 0 21 ?m5 ?st0 "\<lambda>_. 0" "\<lambda>_. 0"] by simp
  have "main_run (\<lambda>_. 0) (\<lambda>_. 0) (3 + 2 + 21) (st, ?mp) = (?st0, m')"
    using r5 r21 main_run_add [of "\<lambda>_. 0" "\<lambda>_. 0" "3 + 2" 21 "(st, ?mp)"] by simp
  then have "ohc_exec (\<lambda>_. 0) (\<lambda>_. 0) (replicate 12 Run @ map Rx (mk_frame PACKET_BOOTPAGE (replicate 129 0)) @
               replicate 26 Run) ohc_init = Some (ohc_entry\<lparr>win := w, store := ?st0, main := m'\<rparr>)"
    using ex ohc_exec_runs [of "\<lambda>_. 0" "\<lambda>_. 0" 26 "ohc_entry\<lparr>win := w, store := st\<rparr>"]
    by (simp add: ohc_entry_facts(4))
  then have r: "ohc_reachable (\<lambda>_. 0) (\<lambda>_. 0) (ohc_entry\<lparr>win := w, store := ?st0, main := m'\<rparr>)"
    using ohc_exec_reachable ohc_reachable.init by blast
  have "\<not> (\<forall>oob'. main_event (\<lambda>_. 0) oob' (ohc_entry\<lparr>win := w, store := ?st0, main := m'\<rparr>) =
             main_event (\<lambda>_. 0) (\<lambda>_. 0) (ohc_entry\<lparr>win := w, store := ?st0, main := m'\<rparr>))"
    using reads_past_frame_only_last_boot [OF r] m' by simp
  then show ?thesis using r by blast
qed

text \<open>C35: cancellation and latest-wins across the whole program. While the
  FORWARDMSG relay loop runs, two LEDTOGGLE frames arrive back to back. The relay loop
  leaves at its next flag test, within one step and without consuming the flag; the
  main loop then takes and dispatches only the later frame: the blue LED toggles once,
  not twice, the earlier frame is dropped, and nothing more is sent.\<close>

theorem relay_cancel_latest_wins:
  assumes "length p = 129" and "length q = 129" and "length r = 129"
  shows "\<exists>t. ohc_exec crcf oob (replicate 12 Run @ map Rx (mk_frame PACKET_FORWARDMSG p) @ replicate 17 Run @
                               map Rx (mk_frame PACKET_LEDTOGGLE q) @ map Rx (mk_frame PACKET_LEDTOGGLE r) @
                               replicate 4 Run) ohc_init = Some t \<and>
             trace (main t) = power_on_trace @ [Sent (set_crc crcf (take 10 p @ [0, 0])), Green True, Green False,
                                                Blue True] \<and>
             blue_on (main t) \<and> pc (main t) = Poll \<and>
             \<not> has_new_packet (store t) \<and> new_packet (store t) = mk_frame PACKET_LEDTOGGLE r"
proof -
  obtain w st where ex: "\<And>es. ohc_exec crcf oob (replicate 12 Run @ map Rx (mk_frame PACKET_FORWARDMSG p) @ es) ohc_init =
        ohc_exec crcf oob es (ohc_entry\<lparr>win := w, store := st\<rparr>)"
    and st: "has_new_packet st" "packet_type st = PACKET_FORWARDMSG" "new_packet st = mk_frame PACKET_FORWARDMSG p"
      "rx_state_wf (w, st)"
    using exec_power_on_frame [OF assms(1)] by metis
  let ?mp = "main_init\<lparr>trace := power_on_trace\<rparr>"
  let ?x = "set_crc crcf (take 10 p @ [0, 0])"
  let ?m1 = "?mp\<lparr>pc := Fwd_test, loop_i := 10, msg := ?x, trace := power_on_trace @ [Sent ?x, Green True, Green False]\<rparr>"
  let ?s1 = "ohc_entry\<lparr>win := w, store := st\<lparr>has_new_packet := False\<rparr>, main := ?m1\<rparr>"
  let ?m2 = "?m1\<lparr>leds_toggle := True, blue_on := True, trace := trace ?m1 @ [Blue True], pc := Poll\<rparr>"
  have x: "set_crc crcf (take 10 (drop 2 (new_packet st)) @ drop 10 (msg ?mp)) = ?x"
    using st(3) assms(1) by (simp add: mk_frame_def main_init_def numeral_2_eq_2 ohc_consts)
  have "main_run crcf oob 17 (st, ?mp) = (st\<lparr>has_new_packet := False\<rparr>, ?m1)"
    using forward_run [of ?mp st crcf oob] st assms(1) x by (simp add: main_init_def mk_frame_def Let_def ohc_consts)
  then have ex1: "ohc_exec crcf oob (replicate 17 Run) (ohc_entry\<lparr>win := w, store := st\<rparr>) = Some ?s1"
    using ohc_exec_runs [of crcf oob 17 "ohc_entry\<lparr>win := w, store := st\<rparr>"] by (simp add: ohc_entry_facts(4))
  have on1: "int_enabled (main ?s1)" and wf1: "rx_state_wf (win ?s1, store ?s1)"
    using st(4) by (simp_all add: main_init_def)
  obtain w2 st2 where ex2: "ohc_exec crcf oob (map Rx (mk_frame PACKET_LEDTOGGLE q)) ?s1 = Some (?s1\<lparr>win := w2, store := st2\<rparr>)"
    and wf2: "rx_state_wf (w2, st2)"
    using exec_frame [OF on1 wf1 assms(2), of crcf oob PACKET_LEDTOGGLE] by auto
  obtain w3 st3 where ex3: "ohc_exec crcf oob (map Rx (mk_frame PACKET_LEDTOGGLE r)) (?s1\<lparr>win := w2, store := st2\<rparr>) =
        Some (?s1\<lparr>win := w3, store := st3\<rparr>)"
    and st3: "has_new_packet st3" "packet_type st3 = PACKET_LEDTOGGLE" "new_packet st3 = mk_frame PACKET_LEDTOGGLE r"
    using exec_frame [of "?s1\<lparr>win := w2, store := st2\<rparr>" r crcf oob PACKET_LEDTOGGLE] on1 wf2 assms(3) by auto
  have "main_run crcf oob 1 (st3, ?m1) = (st3, ?m1\<lparr>pc := Poll\<rparr>)"
    using st3(1) by (simp add: fwd_test_step_def)
  moreover have "main_run crcf oob 3 (st3, ?m1\<lparr>pc := Poll\<rparr>) = (st3\<lparr>has_new_packet := False\<rparr>, ?m2)"
    using dispatch_run [of "?m1\<lparr>pc := Poll\<rparr>" st3 crcf oob] st3(1,2)
    by (simp add: switch_step_def led_toggle_def main_init_def Let_def ohc_consts)
  ultimately have "main_run crcf oob 4 (st3, ?m1) = (st3\<lparr>has_new_packet := False\<rparr>, ?m2)"
    using main_run_add [of crcf oob 1 3 "(st3, ?m1)"] by simp
  then have ex4: "ohc_exec crcf oob (replicate 4 Run) (?s1\<lparr>win := w3, store := st3\<rparr>) =
                    Some (?s1\<lparr>win := w3, store := st3\<lparr>has_new_packet := False\<rparr>, main := ?m2\<rparr>)"
    using ohc_exec_runs [of crcf oob 4 "?s1\<lparr>win := w3, store := st3\<rparr>"] by simp
  show ?thesis
    using ex ex1 ex2 ex3 ex4 st3(3) by (simp add: ohc_exec_append main_init_def)
qed

theorem relay_cancel_latest_wins_witness:
  "\<exists>t. ohc_exec (\<lambda>_. 0) (\<lambda>_. 0) (replicate 12 Run @ map Rx (mk_frame PACKET_FORWARDMSG (replicate 129 1)) @
          replicate 17 Run @ map Rx (mk_frame PACKET_LEDTOGGLE (replicate 129 2)) @
          map Rx (mk_frame PACKET_LEDTOGGLE (replicate 129 3)) @ replicate 4 Run) ohc_init = Some t \<and>
       blue_on (main t) \<and> new_packet (store t) = mk_frame PACKET_LEDTOGGLE (replicate 129 3)"
  using relay_cancel_latest_wins [of "replicate 129 1" "replicate 129 2" "replicate 129 3" "\<lambda>_. 0" "\<lambda>_. 0"]
  by (simp only: length_replicate) blast

end
